theory Spec2Isabelle
  imports Main "HOL-Library.Multiset" "HOL-Library.Sublist"
begin

section \<open>Data model of \<^verbatim>\<open>packages/mdx/src/utils/build-mdx.ts\<close>\<close>

text \<open>
  The file exports one function, \<^verbatim>\<open>buildMDX\<close>, which keeps a module-level
  \<^verbatim>\<open>cache\<close> of MDX processors and registers the remark plugin
  \<^verbatim>\<open>remarkInclude\<close> ahead of the caller's plugins. Everything the file imports
  (\<^verbatim>\<open>@mdx-js/mdx\<close>, \<^verbatim>\<open>unified\<close>, \<^verbatim>\<open>unist-util-visit\<close>,
  \<^verbatim>\<open>node:fs\<close>, \<^verbatim>\<open>node:path\<close>, \<^verbatim>\<open>gray-matter\<close>) is outside the
  repository: those collaborators are fields of the record \<open>env\<close> below, and the
  few library contracts the file relies on are written out where they are used.
\<close>

subsection \<open>Errors and outcomes\<close>

text \<open>
  \<open>TypeError\<close> is what the JavaScript runtime and Node's argument validation raise;
  \<open>Failure\<close> is any error coming out of a collaborator (construction, file system,
  front-matter splitter, parser, later pipeline stages).
\<close>

datatype error = TypeError string | Failure string

text \<open>
  \<^verbatim>\<open>buildMDX\<close> is an ordinary (not \<^verbatim>\<open>async\<close>) function returning a promise: an
  exception of \<^verbatim>\<open>createProcessor\<close>, or of \<^verbatim>\<open>processor.process\<close> before it has made
  its promise, leaves it synchronously (\<open>Throws\<close>); afterwards the returned promise
  rejects or fulfils.
\<close>

datatype 'a outcome = Throws error | Rejects error | Fulfils 'a

subsection \<open>Options and processors\<close>

datatype mdx_format = Md | Mdx

fun format_str :: "mdx_format \<Rightarrow> string" where
  "format_str Md = ''md''"
| "format_str Mdx = ''mdx''"

text \<open>
  \<^verbatim>\<open>MDXOptions\<close>: the fields the file declares, the \<^verbatim>\<open>ProcessorOptions\<close> fields it
  reads (\<^verbatim>\<open>format\<close>, \<^verbatim>\<open>remarkPlugins\<close>) or gives a default on lines 111--112
  (\<^verbatim>\<open>outputFormat\<close>, \<^verbatim>\<open>development\<close>), and the remaining processor options as an
  opaque property list. An absent (or \<^verbatim>\<open>null\<close>) property is \<open>None\<close>. User plugins
  are opaque and named by a number. \<^verbatim>\<open>_compiler\<close> holds the host's dependency
  recorder; its \<^verbatim>\<open>addDependency\<close> calls are logged in the world below, so only its
  presence is kept.
\<close>

record mdx_options =
  collection :: "string option"
  filePath :: "string option"
  frontmatter :: "(string \<times> string) list option"
  data :: "(string \<times> string) list option"
  has_compiler :: bool
  format :: "mdx_format option"
  remarkPlugins :: "nat list option"
  outputFormat :: "string option"
  development :: "bool option"
  other_options :: "(string \<times> string) list"

datatype plugin = RemarkInclude | UserPlugin nat

text \<open>
  The object literal passed to \<^verbatim>\<open>createProcessor\<close> (lines 110--120):
  \<^verbatim>\<open>outputFormat\<close> and \<^verbatim>\<open>development\<close>, then the spread of \<^verbatim>\<open>rest\<close> (the options
  without \<^verbatim>\<open>filePath\<close>, \<^verbatim>\<open>frontmatter\<close> and \<^verbatim>\<open>data\<close>), which replaces those
  two when the caller gave them, then \<^verbatim>\<open>remarkPlugins\<close> and \<^verbatim>\<open>format\<close>, which
  replace what \<^verbatim>\<open>rest\<close> carried.
\<close>

record processor_options =
  po_outputFormat :: string
  po_development :: bool
  po_collection :: "string option"
  po_has_compiler :: bool
  po_other :: "(string \<times> string) list"
  po_remarkPlugins :: "plugin list"
  po_format :: mdx_format

text \<open>
  A processor is an object: two processors built from equal options are still two
  objects. \<open>pid\<close> is the object's identity, the number of the constructor call that made it.
\<close>

record processor =
  pid :: nat
  popts :: processor_options

record cache_entry =
  processor :: processor
  configHash :: string

subsection \<open>Files\<close>

text \<open>
  The file object: the argument of \<^verbatim>\<open>processor.process\<close> (lines 128--136). In \<^verbatim>\<open>data\<close> the keys
  \<^verbatim>\<open>frontmatter\<close> and \<^verbatim>\<open>_compiler\<close> come after the spread of the caller's \<^verbatim>\<open>data\<close> and
  replace what it carried under those keys.
\<close>

record vfile =
  f_value :: string
  f_path :: "string option"
  f_data :: "(string \<times> string) list"
  f_frontmatter :: "(string \<times> string) list option"
  f_compiler :: bool

subsection \<open>Syntax tree\<close>

text \<open>
  A unist node as the file uses it: \<^verbatim>\<open>type\<close> (always present), and the optional
  properties \<^verbatim>\<open>name\<close> and \<^verbatim>\<open>attributes\<close> (JSX elements), \<^verbatim>\<open>value\<close> (literals),
  \<^verbatim>\<open>children\<close> (parents) and \<^verbatim>\<open>position\<close>. \<open>None\<close> is a property the object does
  not have.
\<close>

datatype node = Node
  (ntype: string)
  (name: "string option")
  (attributes: "(string \<times> string) list option")
  (nvalue: "string option")
  (children: "node list option")
  (position: "(nat \<times> nat) option")

subsection \<open>Collaborators and the world\<close>

text \<open>
  The environment of one run of the host process:
  \<^item> \<open>node_env\<close>: \<^verbatim>\<open>process.env.NODE_ENV\<close>;
  \<^item> \<open>construction_error\<close>: whether \<^verbatim>\<open>createProcessor\<close> throws on these options;
  \<^item> \<open>attach_error\<close>: the exception of the processor's \<^verbatim>\<open>freeze\<close>, which calls the
    plugins' attachers, if one of them throws (taken as a function of the processor);
  \<^item> \<open>parser\<close>: the parser of the frozen processor;
  \<^item> \<open>builtin_transforms\<close>: the transformers \<^verbatim>\<open>createProcessor\<close> registers ahead of
    \<^verbatim>\<open>remarkPlugins\<close>;
  \<^item> \<open>compile\<close>: the rest of the pipeline on the file and the tree (the caller's remark
    plugins, rehype, recma, code generation), which yields the compiled program;
  \<^item> \<open>readFile\<close>, \<open>latency\<close>: \<^verbatim>\<open>fs.readFile\<close> and the time the read issued for one
    include takes to settle (reads settle in order of latency, ties in order of issue);
  \<^item> \<open>matter\<close>: the body \<^verbatim>\<open>matter(content).content\<close>;
  \<^item> \<open>dirname\<close>, \<open>resolve\<close>: \<^verbatim>\<open>path.dirname\<close> and \<^verbatim>\<open>path.resolve\<close> on strings.
\<close>

record env =
  node_env :: "string option"
  construction_error :: "processor_options \<Rightarrow> error option"
  attach_error :: "processor \<Rightarrow> error option"
  parser :: "processor \<Rightarrow> string \<Rightarrow> error + node"
  builtin_transforms :: "processor \<Rightarrow> node \<Rightarrow> error + node"
  compile :: "processor \<Rightarrow> vfile \<Rightarrow> node \<Rightarrow> error + string"
  readFile :: "string \<Rightarrow> error + string"
  latency :: "nat list \<times> string \<Rightarrow> nat"
  matter :: "string \<Rightarrow> error + string"
  dirname :: "string \<Rightarrow> string"
  resolve :: "string \<Rightarrow> string \<Rightarrow> string"

text \<open>
  The mutable world: the module-level \<^verbatim>\<open>cache\<close> (a \<^verbatim>\<open>Map\<close>), and three probes:
  the number of \<^verbatim>\<open>createProcessor\<close> calls made so far, the paths passed to
  \<^verbatim>\<open>fs.readFile\<close>, and the paths passed to \<^verbatim>\<open>addDependency\<close>, each in call order.
\<close>

record world =
  cache :: "string \<rightharpoonup> cache_entry"
  ctor_calls :: nat
  reads :: "string list"
  deps :: "string list"

definition init_world :: world where
  "init_world = \<lparr>cache = Map.empty, ctor_calls = 0, reads = [], deps = []\<rparr>"

text \<open>
  The processor's \<^verbatim>\<open>parse\<close> method (unified): it freezes the processor, then runs
  the parser.
\<close>

definition parse :: "env \<Rightarrow> processor \<Rightarrow> string \<Rightarrow> error + node" where
  "parse env this src =
     (case attach_error env this of
        Some e \<Rightarrow> Inl e
      | None \<Rightarrow> parser env this src)"

section \<open>The compiler cache (lines 13, 40--42, 99--126)\<close>

definition cacheKey :: "string \<Rightarrow> string \<Rightarrow> string" where
  "cacheKey grp fmt = grp @ '':'' @ fmt"

text \<open>\<^verbatim>\<open>String.prototype.endsWith\<close>.\<close>

definition endsWith :: "string \<Rightarrow> string \<Rightarrow> bool" where
  "endsWith s suf \<longleftrightarrow>
     length suf \<le> length s \<and> drop (length s - length suf) s = suf"

text \<open>JavaScript truthiness of an optional string: absent and \<^verbatim>\<open>''\<close> are falsy.\<close>

fun truthy :: "string option \<Rightarrow> bool" where
  "truthy None = False"
| "truthy (Some s) = (s \<noteq> [])"

text \<open>
  Lines 99--103. \<^verbatim>\<open>!format\<close> holds exactly when the option is absent (both format
  strings are non-empty); \<^verbatim>\<open>format ??= 'mdx'\<close> fills what is still absent.
\<close>

definition resolve_format :: "mdx_options \<Rightarrow> mdx_format" where
  "resolve_format options =
     (let fmt = format options;
          fmt = (if fmt = None \<and> truthy (filePath options)
                 then Some (if endsWith (the (filePath options)) ''.mdx'' then Mdx else Md)
                 else fmt)
      in case fmt of None \<Rightarrow> Mdx | Some f \<Rightarrow> f)"

definition processor_options_of :: "env \<Rightarrow> mdx_options \<Rightarrow> mdx_format \<Rightarrow> processor_options" where
  "processor_options_of env options fmt =
     \<lparr>po_outputFormat =
        (case outputFormat options of None \<Rightarrow> ''program'' | Some x \<Rightarrow> x),
      po_development =
        (case development options of
           None \<Rightarrow> (node_env env = Some ''development'')
         | Some b \<Rightarrow> b),
      po_collection = collection options,
      po_has_compiler = has_compiler options,
      po_other = other_options options,
      po_remarkPlugins =
        RemarkInclude # map UserPlugin (case remarkPlugins options of None \<Rightarrow> [] | Some ps \<Rightarrow> ps),
      po_format = fmt\<rparr>"

text \<open>
  \<^verbatim>\<open>createProcessor\<close>: every call is counted, whether it throws or not; a call that
  returns yields a new object.
\<close>

definition createProcessor :: "env \<Rightarrow> processor_options \<Rightarrow> world \<Rightarrow> (error + processor) \<times> world" where
  "createProcessor env po w =
     (let w' = w\<lparr>ctor_calls := Suc (ctor_calls w)\<rparr>
      in case construction_error env po of
           Some e \<Rightarrow> (Inl e, w')
         | None \<Rightarrow> (Inr \<lparr>pid = ctor_calls w, popts = po\<rparr>, w'))"

text \<open>
  Lines 105--126: the value of the variable \<^verbatim>\<open>cached\<close> when line 128 is reached, or
  the exception \<^verbatim>\<open>createProcessor\<close> threw.
\<close>

definition cached_processor ::
  "env \<Rightarrow> string \<Rightarrow> string \<Rightarrow> mdx_options \<Rightarrow> world \<Rightarrow> (error + cache_entry) \<times> world" where
  "cached_processor env grp cfgHash options w =
     (let fmt = resolve_format options;
          key = cacheKey grp (format_str fmt);
          cached = cache w key
      in if cached = None \<or> configHash (the cached) \<noteq> cfgHash then
           (case createProcessor env (processor_options_of env options fmt) w of
              (Inl e, w') \<Rightarrow> (Inl e, w')
            | (Inr p, w') \<Rightarrow>
                (let entry = \<lparr>processor = p, configHash = cfgHash\<rparr>
                 in (Inr entry, w'\<lparr>cache := (cache w')(key \<mapsto> entry)\<rparr>)))
         else (Inr (the cached), w))"

section \<open>The include transform (lines 53--83)\<close>

subsection \<open>\<^verbatim>\<open>Object.assign(node, parsed)\<close>\<close>

text \<open>
  \<^verbatim>\<open>Object.assign\<close> copies the own properties of its source onto its target: a
  property the source has replaces the target's, a property the source lacks stays
  as it is on the target.
\<close>

fun override :: "'a option \<Rightarrow> 'a option \<Rightarrow> 'a option" where
  "override old None = old"
| "override old (Some v) = Some v"

definition object_assign :: "node \<Rightarrow> node \<Rightarrow> node" where
  "object_assign target source =
     Node (ntype source)
       (override (name target) (name source))
       (override (attributes target) (attributes source))
       (override (nvalue target) (nvalue source))
       (override (children target) (children source))
       (override (position target) (position source))"

text \<open>
  The callback of line 67 holds a reference to the node it will overwrite. In the
  model a reference is the path of child indices from the root; \<open>assign_at\<close> is the
  assignment through such a reference. (The queued paths are pairwise incomparable,
  lemma \<open>walk_incomparable\<close>, so an assignment never moves another queued node.)
\<close>

fun assign_at :: "nat list \<Rightarrow> node \<Rightarrow> node \<Rightarrow> node" where
  "assign_at [] parsed n = object_assign n parsed"
| "assign_at (i # p) parsed (Node ty nm at v ch ps) =
     Node ty nm at v
       (map_option (\<lambda>cs. if i < length cs then cs[i := assign_at p parsed (cs ! i)] else cs) ch)
       ps"

fun node_at :: "nat list \<Rightarrow> node \<Rightarrow> node option" where
  "node_at [] n = Some n"
| "node_at (i # p) n =
     (case children n of
        None \<Rightarrow> None
      | Some cs \<Rightarrow> if i < length cs then node_at p (cs ! i) else None)"

subsection \<open>\<^verbatim>\<open>visit\<close> of \<^verbatim>\<open>unist-util-visit\<close>\<close>

text \<open>
  The library's contract, for a visitor that returns \<^verbatim>\<open>undefined\<close> (\<open>CONTINUE\<close>) or
  \<^verbatim>\<open>'skip'\<close> (\<open>SKIP\<close>): the tree is walked depth first, parents before children,
  children in index order; the visitor is called on the nodes whose \<^verbatim>\<open>type\<close> is the
  test; after \<open>SKIP\<close> the children of that node are not walked; an exception of the
  visitor ends the walk. The visitor's state \<open>'q\<close> (here the \<^verbatim>\<open>queue\<close>) is threaded
  through, and survives an exception.
\<close>

datatype action = CONTINUE | SKIP

fun visit ::
  "string \<Rightarrow> (node \<Rightarrow> nat list \<Rightarrow> 'q \<Rightarrow> (error + action) \<times> 'q) \<Rightarrow> nat list \<Rightarrow> node \<Rightarrow> 'q
     \<Rightarrow> error option \<times> 'q"
and visit_children ::
  "string \<Rightarrow> (node \<Rightarrow> nat list \<Rightarrow> 'q \<Rightarrow> (error + action) \<times> 'q) \<Rightarrow> nat list \<Rightarrow> nat \<Rightarrow> node list \<Rightarrow> 'q
     \<Rightarrow> error option \<times> 'q"
where
  "visit test visitor p (Node ty nm at v ch ps) q =
     (if ty = test then
        (case visitor (Node ty nm at v ch ps) p q of
           (Inl e, q') \<Rightarrow> (Some e, q')
         | (Inr SKIP, q') \<Rightarrow> (None, q')
         | (Inr CONTINUE, q') \<Rightarrow>
             (case ch of None \<Rightarrow> (None, q') | Some cs \<Rightarrow> visit_children test visitor p 0 cs q'))
      else
        (case ch of None \<Rightarrow> (None, q) | Some cs \<Rightarrow> visit_children test visitor p 0 cs q))"
| "visit_children test visitor p i [] q = (None, q)"
| "visit_children test visitor p i (c # cs) q =
     (case visit test visitor (p @ [i]) c q of
        (Some e, q') \<Rightarrow> (Some e, q')
      | (None, q') \<Rightarrow> visit_children test visitor p (Suc i) cs q')"

subsection \<open>The visitor (lines 57--79)\<close>

text \<open>
  Node's \<^verbatim>\<open>path.dirname\<close> and \<^verbatim>\<open>path.resolve\<close> validate their arguments: anything
  but a string raises a \<^verbatim>\<open>TypeError\<close> (\<^verbatim>\<open>ERR_INVALID_ARG_TYPE\<close>).
\<close>

definition path_dirname :: "env \<Rightarrow> string option \<Rightarrow> error + string" where
  "path_dirname env p =
     (case p of
        None \<Rightarrow> Inl (TypeError ''path.dirname: path must be of type string'')
      | Some s \<Rightarrow> Inr (dirname env s))"

definition path_resolve :: "env \<Rightarrow> string \<Rightarrow> string option \<Rightarrow> error + string" where
  "path_resolve env dir specifier =
     (case specifier of
        None \<Rightarrow> Inl (TypeError ''path.resolve: paths[1] must be of type string'')
      | Some s \<Rightarrow> Inr (resolve env dir s))"

text \<open>
  One pending entry of \<^verbatim>\<open>queue\<close>: the node the callback will overwrite and the
  \<^verbatim>\<open>targetPath\<close> whose read was issued.
\<close>

type_synonym site = "nat list \<times> string"

text \<open>
  The arrow function of lines 57--79, with \<open>fpath\<close> the value of \<^verbatim>\<open>file.path\<close>.
  \<^verbatim>\<open>node.children.at(0)\<close> on a node without \<^verbatim>\<open>children\<close> is a \<^verbatim>\<open>TypeError\<close>. The
  early \<^verbatim>\<open>return\<close> of line 61 returns \<^verbatim>\<open>undefined\<close>; every other path reaches the
  \<^verbatim>\<open>return 'skip'\<close> of line 78, also for an element that is not an include.
\<close>

definition include_visitor ::
  "env \<Rightarrow> string option \<Rightarrow> node \<Rightarrow> nat list \<Rightarrow> site list \<Rightarrow> (error + action) \<times> site list" where
  "include_visitor env fpath node p queue =
     (if name node = Some ''include'' then
        (case children node of
           None \<Rightarrow> (Inl (TypeError ''cannot read properties of undefined (reading at)''), queue)
         | Some cs \<Rightarrow>
             (case cs of
                [] \<Rightarrow> (Inr CONTINUE, queue)
              | child # _ \<Rightarrow>
                  if ntype child \<noteq> ''text'' then (Inr CONTINUE, queue)
                  else
                    (case path_dirname env fpath of
                       Inl e \<Rightarrow> (Inl e, queue)
                     | Inr dir \<Rightarrow>
                         (case path_resolve env dir (nvalue child) of
                            Inl e \<Rightarrow> (Inl e, queue)
                          | Inr targetPath \<Rightarrow> (Inr SKIP, queue @ [(p, targetPath)])))))
      else (Inr SKIP, queue))"

subsection \<open>The callbacks (lines 67--74) and \<^verbatim>\<open>Promise.all\<close>\<close>

text \<open>
  The read of line 67 and line 68: the file's content, its body after the front
  matter, parsed by the processor the plugin is attached to. Any of the three may fail.
\<close>

definition parsed_include :: "env \<Rightarrow> processor \<Rightarrow> string \<Rightarrow> error + node" where
  "parsed_include env this targetPath =
     (case readFile env targetPath of
        Inl e \<Rightarrow> Inl e
      | Inr content \<Rightarrow>
          (case matter env content of
             Inl e \<Rightarrow> Inl e
           | Inr body \<Rightarrow> parse env this body))"

text \<open>
  What happens when the read of one queued include settles: a failed read, a failing
  \<^verbatim>\<open>matter\<close> or a failing \<^verbatim>\<open>parse\<close> rejects that promise and nothing else
  happens; otherwise the recorder is told (if there is one) and the node is
  overwritten. The state is the tree and the recorder's log.
\<close>

definition resolve_include ::
  "env \<Rightarrow> processor \<Rightarrow> bool \<Rightarrow> site \<Rightarrow> node \<times> string list \<Rightarrow> error option \<times> node \<times> string list" where
  "resolve_include env this compiler s st =
     (case parsed_include env this (snd s) of
        Inl e \<Rightarrow> (Some e, st)
      | Inr parsed \<Rightarrow>
          (None,
           assign_at (fst s) parsed (fst st),
           if compiler then snd st @ [snd s] else snd st))"

text \<open>
  \<^verbatim>\<open>Promise.all(queue)\<close>: the promises settle one after the other, in the order given;
  the result is the first rejection, if any. A rejection does not cancel the other
  reads: their callbacks still run when they settle.
\<close>

fun settle_all ::
  "env \<Rightarrow> processor \<Rightarrow> bool \<Rightarrow> site list \<Rightarrow> node \<times> string list \<Rightarrow> error option \<times> node \<times> string list" where
  "settle_all env this compiler [] st = (None, st)"
| "settle_all env this compiler (s # ss) st =
     (case resolve_include env this compiler s st of
        (r, st') \<Rightarrow>
          (case settle_all env this compiler ss st' of
             (r', st'') \<Rightarrow> (case r of Some e \<Rightarrow> Some e | None \<Rightarrow> r', st'')))"

text \<open>The call of \<^verbatim>\<open>visit\<close> on lines 57--79, started with an empty \<^verbatim>\<open>queue\<close>.\<close>

definition walk :: "env \<Rightarrow> string option \<Rightarrow> node \<Rightarrow> error option \<times> site list" where
  "walk env fpath tree = visit ''mdxJsxFlowElement'' (include_visitor env fpath) [] tree []"

text \<open>
  The transformer \<^verbatim>\<open>remarkInclude\<close> returns (lines 54--82), on a tree and a file with
  path \<open>fpath\<close> and recorder presence \<open>compiler\<close>. The walk is synchronous and issues
  the reads; the reads then settle in order of latency. An exception of the walk
  rejects at once; the reads already issued still settle.
\<close>

definition remarkInclude ::
  "env \<Rightarrow> processor \<Rightarrow> bool \<Rightarrow> string option \<Rightarrow> node \<Rightarrow> world \<Rightarrow> (error + node) \<times> world" where
  "remarkInclude env this compiler fpath tree w =
     (case walk env fpath tree of
        (thrown, queue) \<Rightarrow>
          (case settle_all env this compiler (sort_key (latency env) queue) (tree, deps w) of
             (failed, tree', deps') \<Rightarrow>
               (let w' = w\<lparr>reads := reads w @ map snd queue, deps := deps'\<rparr>
                in case thrown of
                     Some e \<Rightarrow> (Inl e, w')
                   | None \<Rightarrow> (case failed of Some e \<Rightarrow> (Inl e, w') | None \<Rightarrow> (Inr tree', w')))))"

section \<open>The build entry point (lines 91--137)\<close>

definition vfile_of :: "string \<Rightarrow> mdx_options \<Rightarrow> vfile" where
  "vfile_of source options =
     \<lparr>f_value = source,
      f_path = filePath options,
      f_data = filter (\<lambda>kv. fst kv \<noteq> ''frontmatter'' \<and> fst kv \<noteq> ''_compiler'')
                 (case data options of None \<Rightarrow> [] | Some d \<Rightarrow> d),
      f_frontmatter = frontmatter options,
      f_compiler = has_compiler options\<rparr>"

text \<open>
  \<^verbatim>\<open>processor.process\<close> for a processor built on lines 110--120. It first freezes
  the processor, outside the promise: an attacher that throws makes \<^verbatim>\<open>process\<close>, and
  with it \<^verbatim>\<open>buildMDX\<close> on line 128, throw synchronously. Then, inside the promise,
  the file object is made (vfile refuses an empty \<^verbatim>\<open>path\<close>), the source is parsed,
  and the transform chain runs: the built-in transformers, \<^verbatim>\<open>remarkInclude\<close> (first
  of \<^verbatim>\<open>remarkPlugins\<close>), then the caller's plugins and the compiler. Each of these
  failures rejects the promise.
\<close>

definition process :: "env \<Rightarrow> processor \<Rightarrow> vfile \<Rightarrow> world \<Rightarrow> string outcome \<times> world" where
  "process env this file w =
     (case attach_error env this of
        Some e \<Rightarrow> (Throws e, w)
      | None \<Rightarrow>
          (if f_path file = Some [] then
             (Rejects (Failure ''vfile: path cannot be empty''), w)
           else
             (case parse env this (f_value file) of
                Inl e \<Rightarrow> (Rejects e, w)
              | Inr tree \<Rightarrow>
                  (case builtin_transforms env this tree of
                     Inl e \<Rightarrow> (Rejects e, w)
                   | Inr tree1 \<Rightarrow>
                       (case remarkInclude env this (f_compiler file) (f_path file) tree1 w of
                          (Inl e, w') \<Rightarrow> (Rejects e, w')
                        | (Inr tree2, w') \<Rightarrow>
                            (case compile env this file tree2 of
                               Inl e \<Rightarrow> (Rejects e, w')
                             | Inr program \<Rightarrow> (Fulfils program, w')))))))"

definition buildMDX ::
  "env \<Rightarrow> string \<Rightarrow> string \<Rightarrow> string \<Rightarrow> mdx_options \<Rightarrow> world \<Rightarrow> string outcome \<times> world" where
  "buildMDX env grp cfgHash source options w =
     (case cached_processor env grp cfgHash options w of
        (Inl e, w') \<Rightarrow> (Throws e, w')
      | (Inr cached, w') \<Rightarrow> process env (processor cached) (vfile_of source options) w')"

text \<open>A sequence of build calls, one after the other.\<close>

record call =
  c_group :: string
  c_configHash :: string
  c_source :: string
  c_options :: mdx_options

fun run_calls :: "env \<Rightarrow> call list \<Rightarrow> world \<Rightarrow> world" where
  "run_calls env [] w = w"
| "run_calls env (c # cs) w =
     run_calls env cs (snd (buildMDX env (c_group c) (c_configHash c) (c_source c) (c_options c) w))"

section \<open>Notions used in the statements\<close>

text \<open>
  The format rule as the specification words it: an explicit option; otherwise, when
  a file path is supplied, by its suffix; otherwise \<^verbatim>\<open>mdx\<close>.
\<close>

definition stated_format :: "mdx_options \<Rightarrow> mdx_format" where
  "stated_format options =
     (case format options of
        Some f \<Rightarrow> f
      | None \<Rightarrow>
          (case filePath options of
             Some p \<Rightarrow> if endsWith p ''.mdx'' then Mdx else Md
           | None \<Rightarrow> Mdx))"

text \<open>
  An include directive is a JSX flow element named \<^verbatim>\<open>include\<close>. The visitor queues
  it when its first child is a text node (\<open>resolvable\<close>) and passes over it when it
  has children of which the first is missing or not text (\<open>passed_over\<close>, line 61).
  The walk does not go below a node that is \<open>opaque\<close>: a JSX flow element other than
  a passed-over include directive.
\<close>

definition include_directive :: "node \<Rightarrow> bool" where
  "include_directive n \<longleftrightarrow> ntype n = ''mdxJsxFlowElement'' \<and> name n = Some ''include''"

definition resolvable :: "node \<Rightarrow> bool" where
  "resolvable n \<longleftrightarrow>
     include_directive n \<and>
     (case children n of Some (c # _) \<Rightarrow> ntype c = ''text'' | _ \<Rightarrow> False)"

definition passed_over :: "node \<Rightarrow> bool" where
  "passed_over n \<longleftrightarrow>
     include_directive n \<and>
     (case children n of None \<Rightarrow> False | Some [] \<Rightarrow> True | Some (c # _) \<Rightarrow> ntype c \<noteq> ''text'')"

definition opaque :: "node \<Rightarrow> bool" where
  "opaque n \<longleftrightarrow> ntype n = ''mdxJsxFlowElement'' \<and> \<not> passed_over n"

text \<open>
  \<open>reaches n r\<close>: the node at path \<open>r\<close> below \<open>n\<close> has no opaque node strictly above
  it on its path from \<open>n\<close>.
\<close>

fun reaches :: "node \<Rightarrow> nat list \<Rightarrow> bool" where
  "reaches n [] = True"
| "reaches n (i # r) =
     (\<not> opaque n \<and>
      (case children n of None \<Rightarrow> False | Some cs \<Rightarrow> i < length cs \<and> reaches (cs ! i) r))"

text \<open>
  The walk started at a node with path \<open>p\<close>, and the walk over a child list whose
  first member has index \<open>k\<close>, both with an empty \<^verbatim>\<open>queue\<close>.
\<close>

definition walk_from :: "env \<Rightarrow> string option \<Rightarrow> nat list \<Rightarrow> node \<Rightarrow> error option \<times> site list" where
  "walk_from env fpath p n = visit ''mdxJsxFlowElement'' (include_visitor env fpath) p n []"

definition walk_children ::
  "env \<Rightarrow> string option \<Rightarrow> nat list \<Rightarrow> nat \<Rightarrow> node list \<Rightarrow> error option \<times> site list" where
  "walk_children env fpath p k cs =
     visit_children ''mdxJsxFlowElement'' (include_visitor env fpath) p k cs []"

text \<open>
  Two nodes with the same own properties apart from what their children are: same
  type, name, attributes, value, position and number of children.
\<close>

definition same_shell :: "node \<Rightarrow> node \<Rightarrow> bool" where
  "same_shell n n' \<longleftrightarrow>
     ntype n' = ntype n \<and> name n' = name n \<and> attributes n' = attributes n \<and>
     nvalue n' = nvalue n \<and> position n' = position n \<and>
     map_option length (children n') = map_option length (children n)"

text \<open>Document order on paths: a node before its descendants, a child before its later siblings.\<close>

definition doc_before :: "nat list \<Rightarrow> nat list \<Rightarrow> bool" where
  "doc_before r r' \<longleftrightarrow> (r, r') \<in> lexord {(i, j). i < j}"

text \<open>
  The first rejection among includes settling in the given order, and the tree after
  all of them have settled.
\<close>

fun first_failure :: "env \<Rightarrow> processor \<Rightarrow> site list \<Rightarrow> error option" where
  "first_failure env this [] = None"
| "first_failure env this (s # ss) =
     (case parsed_include env this (snd s) of
        Inl e \<Rightarrow> Some e
      | Inr _ \<Rightarrow> first_failure env this ss)"

fun assign_all :: "env \<Rightarrow> processor \<Rightarrow> site list \<Rightarrow> node \<Rightarrow> node" where
  "assign_all env this [] t = t"
| "assign_all env this (s # ss) t =
     assign_all env this ss
       (case parsed_include env this (snd s) of
          Inl _ \<Rightarrow> t
        | Inr parsed \<Rightarrow> assign_at (fst s) parsed t)"

definition resolves :: "env \<Rightarrow> processor \<Rightarrow> site \<Rightarrow> bool" where
  "resolves env this s \<longleftrightarrow> (case parsed_include env this (snd s) of Inl _ \<Rightarrow> False | Inr _ \<Rightarrow> True)"




section \<open>Concrete inputs\<close>

text \<open>A small host on which the theorems below are exercised.\<close>

definition text_node :: "string \<Rightarrow> node" where
  "text_node s = Node ''text'' None None (Some s) None None"

definition jsx_flow :: "string \<Rightarrow> node list \<Rightarrow> node" where
  "jsx_flow nm cs = Node ''mdxJsxFlowElement'' (Some nm) (Some []) None (Some cs) (Some (1, 1))"

definition root_node :: "node list \<Rightarrow> node" where
  "root_node cs = Node ''root'' None None None (Some cs) (Some (0, 0))"

text \<open>
  The example parser knows four documents: one include of \<^verbatim>\<open>b.mdx\<close>, one include
  of a file that does not exist, one include inside a \<^verbatim>\<open>div\<close>, and a document it
  rejects; any other text is one paragraph.
\<close>

definition ex_parse :: "string \<Rightarrow> error + node" where
  "ex_parse src =
     (if src = ''<include>b.mdx</include>'' then
        Inr (root_node [jsx_flow ''include'' [text_node ''b.mdx'']])
      else if src = ''<include>missing.mdx</include>'' then
        Inr (root_node [jsx_flow ''include'' [text_node ''missing.mdx'']])
      else if src = ''<div><include>b.mdx</include></div>'' then
        Inr (root_node [jsx_flow ''div'' [jsx_flow ''include'' [text_node ''b.mdx'']]])
      else if src = ''<'' then Inl (Failure ''unexpected end of file'')
      else Inr (root_node [Node ''paragraph'' None None None (Some [text_node src]) None]))"

definition ex_env :: env where
  "ex_env =
     \<lparr>node_env = Some ''production'',
      construction_error =
        (\<lambda>po. if po_collection po = Some ''broken'' then Some (Failure ''bad options'') else None),
      attach_error = (\<lambda>_. None),
      parser = (\<lambda>_. ex_parse),
      builtin_transforms = (\<lambda>_ t. Inr t),
      compile = (\<lambda>_ _ _. Inr ''program''),
      readFile =
        (\<lambda>p. if p = ''/docs/b.mdx'' then Inr ''Hello'' else Inl (Failure ''ENOENT'')),
      latency = (\<lambda>_. 0),
      matter = Inr,
      dirname = (\<lambda>_. ''/docs''),
      resolve = (\<lambda>dir s. dir @ ''/'' @ s)\<rparr>"

definition no_options :: mdx_options where
  "no_options =
     \<lparr>collection = None, filePath = None, frontmatter = None, data = None,
      has_compiler = False, format = None, remarkPlugins = None, outputFormat = None,
      development = None, other_options = []\<rparr>"

definition ex_call :: "string \<Rightarrow> mdx_options \<Rightarrow> call" where
  "ex_call h options =
     \<lparr>c_group = ''docs'', c_configHash = h, c_source = ''Hi'', c_options = options\<rparr>"

text \<open>The cache entry the \<open>n\<close>-th constructor call makes from \<open>no_options\<close>.\<close>

definition ex_entry :: "nat \<Rightarrow> string \<Rightarrow> cache_entry" where
  "ex_entry n h =
     \<lparr>processor = \<lparr>pid = n, popts = processor_options_of ex_env no_options Mdx\<rparr>, configHash = h\<rparr>"

text \<open>
  The first processor made from \<open>no_options\<close>, and three trees: one include; an
  include inside a \<^verbatim>\<open>div\<close> next to an include inside an include; the same file
  included twice.
\<close>

definition ex_this :: processor where
  "ex_this = \<lparr>pid = 0, popts = processor_options_of ex_env no_options Mdx\<rparr>"

definition ex_tree_one :: node where
  "ex_tree_one = root_node [jsx_flow ''include'' [text_node ''b.mdx'']]"

definition ex_tree_nested :: node where
  "ex_tree_nested =
     root_node
       [jsx_flow ''div'' [jsx_flow ''include'' [text_node ''b.mdx'']],
        jsx_flow ''include'' [jsx_flow ''include'' [text_node ''b.mdx'']]]"

definition ex_tree_twice :: node where
  "ex_tree_twice =
     root_node
       [jsx_flow ''include'' [text_node ''b.mdx''],
        Node ''paragraph'' None None None (Some [text_node ''and again'']) None,
        jsx_flow ''include'' [text_node ''b.mdx'']]"

section \<open>Properties of the compiler cache\<close>

lemmas ex_defs = ex_env_def no_options_def ex_call_def ex_parse_def init_world_def
  text_node_def jsx_flow_def root_node_def ex_this_def

lemmas build_defs = buildMDX_def cached_processor_def createProcessor_def processor_options_of_def
  resolve_format_def cacheKey_def endsWith_def process_def vfile_of_def remarkInclude_def
  walk_def include_visitor_def path_dirname_def path_resolve_def resolve_include_def
  parsed_include_def parse_def object_assign_def Let_def

text \<open>
  Both format strings end differently, so a key determines its group and its format.
\<close>

lemma cacheKey_inject:
  "cacheKey g (format_str f) = cacheKey g' (format_str f') \<Longrightarrow> g = g' \<and> f = f'"
proof -
  assume h: "cacheKey g (format_str f) = cacheKey g' (format_str f')"
  have ff: "f = f'"
  proof (rule ccontr)
    assume "f \<noteq> f'"
    from h have "last (cacheKey g (format_str f)) = last (cacheKey g' (format_str f'))" by simp
    with \<open>f \<noteq> f'\<close> show False
      by (cases f; cases f') (simp_all add: cacheKey_def)
  qed
  with h show ?thesis by (simp add: cacheKey_def)
qed

lemma remarkInclude_cache:
  "cache (snd (remarkInclude env this c fp t w)) = cache w"
  "ctor_calls (snd (remarkInclude env this c fp t w)) = ctor_calls w"
  by (simp_all add: remarkInclude_def Let_def split: prod.splits option.splits)

lemma remarkInclude_cache_eq:
  "remarkInclude env this c fp t w = (r, w') \<Longrightarrow> cache w' = cache w \<and> ctor_calls w' = ctor_calls w"
  using remarkInclude_cache [of env this c fp t w] by simp

lemma process_cache:
  "cache (snd (process env this vf w)) = cache w"
  "ctor_calls (snd (process env this vf w)) = ctor_calls w"
  by (auto simp: process_def split: option.splits sum.splits prod.splits
        dest: remarkInclude_cache_eq)

text \<open>The three ways lines 105--126 can go.\<close>

lemma cached_processor_hit:
  assumes "cache w (cacheKey grp (format_str (resolve_format options))) = Some c"
    and "configHash c = h"
  shows "cached_processor env grp h options w = (Inr c, w)"
  using assms by (simp add: cached_processor_def Let_def)

lemma cached_processor_throws:
  assumes "cache w (cacheKey grp (format_str (resolve_format options))) = None \<or>
           configHash (the (cache w (cacheKey grp (format_str (resolve_format options))))) \<noteq> h"
    and "construction_error env (processor_options_of env options (resolve_format options)) = Some e"
  shows "cached_processor env grp h options w = (Inl e, w\<lparr>ctor_calls := Suc (ctor_calls w)\<rparr>)"
proof -
  have "createProcessor env (processor_options_of env options (resolve_format options)) w
        = (Inl e, w\<lparr>ctor_calls := Suc (ctor_calls w)\<rparr>)"
    using assms(2) by (simp add: createProcessor_def Let_def)
  then show ?thesis
    using assms(1) unfolding cached_processor_def Let_def by auto
qed

lemma cached_processor_builds:
  assumes "cache w (cacheKey grp (format_str (resolve_format options))) = None \<or>
           configHash (the (cache w (cacheKey grp (format_str (resolve_format options))))) \<noteq> h"
    and "construction_error env (processor_options_of env options (resolve_format options)) = None"
  shows "cached_processor env grp h options w =
           (Inr \<lparr>processor = \<lparr>pid = ctor_calls w,
                                popts = processor_options_of env options (resolve_format options)\<rparr>,
                  configHash = h\<rparr>,
            w\<lparr>ctor_calls := Suc (ctor_calls w),
              cache := (cache w)(cacheKey grp (format_str (resolve_format options)) \<mapsto>
                 \<lparr>processor = \<lparr>pid = ctor_calls w,
                                popts = processor_options_of env options (resolve_format options)\<rparr>,
                  configHash = h\<rparr>)\<rparr>)"
proof -
  have "createProcessor env (processor_options_of env options (resolve_format options)) w
        = (Inr \<lparr>pid = ctor_calls w,
                 popts = processor_options_of env options (resolve_format options)\<rparr>,
           w\<lparr>ctor_calls := Suc (ctor_calls w)\<rparr>)"
    using assms(2) by (simp add: createProcessor_def Let_def)
  then show ?thesis
    using assms(1) unfolding cached_processor_def Let_def by auto
qed

lemma cached_processor_cases:
  obtains (hit) c where "cache w (cacheKey grp (format_str (resolve_format options))) = Some c"
      "configHash c = h"
  | (throws) e where "cache w (cacheKey grp (format_str (resolve_format options))) = None \<or>
           configHash (the (cache w (cacheKey grp (format_str (resolve_format options))))) \<noteq> h"
      "construction_error env (processor_options_of env options (resolve_format options)) = Some e"
  | (builds) "cache w (cacheKey grp (format_str (resolve_format options))) = None \<or>
           configHash (the (cache w (cacheKey grp (format_str (resolve_format options))))) \<noteq> h"
      "construction_error env (processor_options_of env options (resolve_format options)) = None"
  by (cases "cache w (cacheKey grp (format_str (resolve_format options)))";
      cases "construction_error env (processor_options_of env options (resolve_format options))")
     auto

lemma buildMDX_cache:
  "cache (snd (buildMDX env grp h src options w)) = cache (snd (cached_processor env grp h options w))"
  "ctor_calls (snd (buildMDX env grp h src options w)) = ctor_calls (snd (cached_processor env grp h options w))"
  by (simp_all add: buildMDX_def process_cache split: prod.splits sum.splits)

lemma buildMDX_eq:
  assumes "fst (cached_processor env grp h options w) = Inr c"
  shows "buildMDX env grp h source options w =
           process env (processor c) (vfile_of source options)
             (snd (cached_processor env grp h options w))"
  using assms by (cases "cached_processor env grp h options w") (simp add: buildMDX_def)

lemma cached_processor_entry:
  assumes "fst (cached_processor env grp h options w) = Inr c"
  shows "cache (snd (cached_processor env grp h options w))
           (cacheKey grp (format_str (resolve_format options))) = Some c \<and> configHash c = h"
proof (cases rule: cached_processor_cases [where w=w and grp=grp and options=options and h=h and env=env])
  case (hit c')
  then show ?thesis using assms cached_processor_hit [OF hit, of env] by simp
next
  case (throws e)
  then show ?thesis using assms cached_processor_throws [OF throws] by simp
next
  case builds
  then show ?thesis using assms cached_processor_builds [OF builds] by auto
qed

lemma buildMDX_keeps_entry:
  assumes "cache w (cacheKey g (format_str f)) = Some c" and "configHash c = h"
    and "grp = g \<and> resolve_format options = f \<longrightarrow> cfgHash = h"
  shows "cache (snd (buildMDX env grp cfgHash src options w)) (cacheKey g (format_str f)) = Some c"
proof (cases rule: cached_processor_cases [where w=w and grp=grp and options=options and h=cfgHash and env=env])
  case (hit c')
  then show ?thesis using assms(1) cached_processor_hit [OF hit, of env]
    by (simp add: buildMDX_cache)
next
  case (throws e)
  then show ?thesis using assms(1) cached_processor_throws [OF throws]
    by (simp add: buildMDX_cache)
next
  case builds
  have "cacheKey grp (format_str (resolve_format options)) \<noteq> cacheKey g (format_str f)"
  proof
    assume eq: "cacheKey grp (format_str (resolve_format options)) = cacheKey g (format_str f)"
    then have "grp = g \<and> resolve_format options = f" by (rule cacheKey_inject)
    with assms(3) have "cfgHash = h" by simp
    with builds(1) assms(1,2) eq show False by simp
  qed
  then show ?thesis using assms(1) cached_processor_builds [OF builds]
    by (simp add: buildMDX_cache)
qed

lemma run_calls_keeps_entry:
  assumes "cache w (cacheKey g (format_str f)) = Some c" and "configHash c = h"
    and "\<forall>cl \<in> set calls. c_group cl = g \<and> resolve_format (c_options cl) = f \<longrightarrow> c_configHash cl = h"
  shows "cache (run_calls env calls w) (cacheKey g (format_str f)) = Some c"
  using assms
proof (induction calls arbitrary: w)
  case Nil
  then show ?case by simp
next
  case (Cons cl calls)
  have "cache (snd (buildMDX env (c_group cl) (c_configHash cl) (c_source cl) (c_options cl) w))
          (cacheKey g (format_str f)) = Some c"
    using Cons.prems by (intro buildMDX_keeps_entry [where h = h]) simp_all
  then show ?case using Cons.prems by (simp add: Cons.IH)
qed

text \<open>
  Claim C1, as stated: of two calls with the same group, resolved format and hash, with
  no call for that key with another hash in between, the second runs on the instance
  the first constructed, and the constructor is not called again. When the
  constructor throws in the first call there is no such instance and nothing is
  stored (line 125 is not reached): the same call made again calls the constructor
  again, and a call with the same key and hash whose options the constructor accepts
  runs on the processor made by that second constructor call.
\<close>

theorem first_call_throws_counterexample:
  "fst (buildMDX ex_env ''docs'' ''A'' ''Hi'' (no_options\<lparr>collection := Some ''broken''\<rparr>) init_world)
     = Throws (Failure ''bad options'') \<and>
   ctor_calls (snd (buildMDX ex_env ''docs'' ''A'' ''Hi'' (no_options\<lparr>collection := Some ''broken''\<rparr>)
                      init_world)) = 1 \<and>
   ctor_calls (snd (buildMDX ex_env ''docs'' ''A'' ''Hi'' (no_options\<lparr>collection := Some ''broken''\<rparr>)
     (snd (buildMDX ex_env ''docs'' ''A'' ''Hi'' (no_options\<lparr>collection := Some ''broken''\<rparr>)
             init_world)))) = 2 \<and>
   fst (cached_processor ex_env ''docs'' ''A'' no_options
     (snd (buildMDX ex_env ''docs'' ''A'' ''Hi'' (no_options\<lparr>collection := Some ''broken''\<rparr>)
             init_world))) = Inr (ex_entry 1 ''A'')"
  by (simp add: ex_defs build_defs ex_entry_def)

text \<open>
  Claim C1, amended. Two calls of \<^verbatim>\<open>buildMDX\<close> with the same group, the same resolved
  format and the same \<^verbatim>\<open>configHash\<close>, where the first call reaches line 128 with the
  cache entry \<open>c\<close> (its constructor call, if it made one, returned) and no call in
  between for that group and format uses another hash. Then \<open>c\<close> either was under
  the key already, and the first call did not call the constructor, or was made by
  the first call's one constructor call; the first call runs \<^verbatim>\<open>process\<close> on its
  processor; \<open>c\<close> is under the key after the first call and still after the calls in
  between; and the second call finds it there, leaves the world as it is, runs
  \<^verbatim>\<open>process\<close> on the same processor and does not call the constructor.
\<close>

theorem buildMDX_reuses_processor:
  assumes "fst (cached_processor env grp h options1 w0) = Inr c"
    and "resolve_format options2 = resolve_format options1"
    and "\<forall>cl \<in> set between.
           c_group cl = grp \<and> resolve_format (c_options cl) = resolve_format options1
             \<longrightarrow> c_configHash cl = h"
    and "key = cacheKey grp (format_str (resolve_format options1))"
    and "w1 = snd (buildMDX env grp h source1 options1 w0)"
    and "w2 = run_calls env between w1"
  shows "(cache w0 key = Some c \<and> ctor_calls w1 = ctor_calls w0 \<or>
          cache w0 key \<noteq> Some c \<and>
          processor c = \<lparr>pid = ctor_calls w0,
                          popts = processor_options_of env options1 (resolve_format options1)\<rparr> \<and>
          ctor_calls w1 = Suc (ctor_calls w0)) \<and>
         configHash c = h \<and>
         buildMDX env grp h source1 options1 w0 =
           process env (processor c) (vfile_of source1 options1)
             (snd (cached_processor env grp h options1 w0)) \<and>
         cache w1 key = Some c \<and>
         cache w2 key = Some c \<and>
         cached_processor env grp h options2 w2 = (Inr c, w2) \<and>
         buildMDX env grp h source2 options2 w2 =
           process env (processor c) (vfile_of source2 options2) w2 \<and>
         ctor_calls (snd (buildMDX env grp h source2 options2 w2)) = ctor_calls w2"
proof -
  have first: "cache w0 key = Some c \<and> ctor_calls w1 = ctor_calls w0 \<or>
          cache w0 key \<noteq> Some c \<and>
          processor c = \<lparr>pid = ctor_calls w0,
                          popts = processor_options_of env options1 (resolve_format options1)\<rparr> \<and>
          ctor_calls w1 = Suc (ctor_calls w0)"
  proof (cases rule: cached_processor_cases
      [where w=w0 and grp=grp and options=options1 and h=h and env=env])
    case (hit c')
    then show ?thesis
      using assms(1) cached_processor_hit [OF hit, of env]
      by (simp add: assms(4,5) buildMDX_cache)
  next
    case (throws e)
    then show ?thesis using assms(1) cached_processor_throws [OF throws] by simp
  next
    case builds
    have "configHash c = h" using cached_processor_entry [OF assms(1)] by simp
    with builds(1) have "cache w0 key \<noteq> Some c" by (auto simp: assms(4))
    then show ?thesis
      using assms(1) cached_processor_builds [OF builds]
      by (auto simp: assms(4,5) buildMDX_cache)
  qed
  have 1: "cache w1 key = Some c" and 2: "configHash c = h"
    using cached_processor_entry [OF assms(1)] by (simp_all add: assms(4,5) buildMDX_cache)
  have 3: "cache w2 key = Some c"
    unfolding assms(6) assms(4) using 1 [unfolded assms(4)] 2 assms(3)
    by (rule run_calls_keeps_entry)
  then have 4: "cached_processor env grp h options2 w2 = (Inr c, w2)"
    using 2 assms(2) by (intro cached_processor_hit) (simp_all add: assms(4))
  then have 5: "buildMDX env grp h source2 options2 w2 =
           process env (processor c) (vfile_of source2 options2) w2"
    by (simp add: buildMDX_def)
  have 6: "ctor_calls (snd (buildMDX env grp h source2 options2 w2)) = ctor_calls w2"
    using 4 by (simp add: buildMDX_cache)
  have 7: "buildMDX env grp h source1 options1 w0 =
           process env (processor c) (vfile_of source1 options1)
             (snd (cached_processor env grp h options1 w0))"
    using assms(1) by (rule buildMDX_eq)
  from first 1 2 3 4 5 6 7 show ?thesis by blast
qed

text \<open>
  The theorem at work: a first build of group \<^verbatim>\<open>docs\<close> with hash \<^verbatim>\<open>A\<close> makes the
  first processor; a build of the same group in the other format with hash \<^verbatim>\<open>B\<close>
  makes the second; the first build again runs on the first processor, and the
  constructor count stays at two.
\<close>

theorem buildMDX_reuses_processor_witness:
  "cache init_world ''docs:mdx'' \<noteq> Some (ex_entry 0 ''A'') \<and>
   ctor_calls (snd (buildMDX ex_env ''docs'' ''A'' ''Hi'' no_options init_world)) = 1 \<and>
   cache (snd (buildMDX ex_env ''docs'' ''A'' ''Hi'' no_options init_world)) ''docs:mdx''
     = Some (ex_entry 0 ''A'') \<and>
   ctor_calls (run_calls ex_env [ex_call ''B'' (no_options\<lparr>format := Some Md\<rparr>)]
        (snd (buildMDX ex_env ''docs'' ''A'' ''Hi'' no_options init_world))) = 2 \<and>
   cached_processor ex_env ''docs'' ''A'' no_options
     (run_calls ex_env [ex_call ''B'' (no_options\<lparr>format := Some Md\<rparr>)]
        (snd (buildMDX ex_env ''docs'' ''A'' ''Hi'' no_options init_world)))
   = (Inr (ex_entry 0 ''A''),
      run_calls ex_env [ex_call ''B'' (no_options\<lparr>format := Some Md\<rparr>)]
        (snd (buildMDX ex_env ''docs'' ''A'' ''Hi'' no_options init_world))) \<and>
   ctor_calls (snd (buildMDX ex_env ''docs'' ''A'' ''Hi'' no_options
     (run_calls ex_env [ex_call ''B'' (no_options\<lparr>format := Some Md\<rparr>)]
        (snd (buildMDX ex_env ''docs'' ''A'' ''Hi'' no_options init_world))))) = 2"
proof -
  let ?w1 = "snd (buildMDX ex_env ''docs'' ''A'' ''Hi'' no_options init_world)"
  let ?w2 = "run_calls ex_env [ex_call ''B'' (no_options\<lparr>format := Some Md\<rparr>)] ?w1"
  have 1: "fst (cached_processor ex_env ''docs'' ''A'' no_options init_world)
             = Inr (ex_entry 0 ''A'')"
    by (simp add: ex_defs build_defs ex_entry_def)
  have 2: "\<forall>cl \<in> set [ex_call ''B'' (no_options\<lparr>format := Some Md\<rparr>)].
           c_group cl = ''docs'' \<and> resolve_format (c_options cl) = resolve_format no_options
             \<longrightarrow> c_configHash cl = ''A''"
    by (simp add: ex_defs resolve_format_def)
  have key: "''docs:mdx'' = cacheKey ''docs'' (format_str (resolve_format no_options))"
    by (simp add: ex_defs build_defs)
  have n2: "ctor_calls ?w2 = 2"
    by (simp add: ex_call_def buildMDX_cache) (simp add: ex_defs build_defs)
  have n0: "ctor_calls init_world = 0" "cache init_world ''docs:mdx'' = None"
    by (simp_all add: init_world_def)
  note t = buildMDX_reuses_processor [OF 1 refl 2 key refl refl, of "''Hi''" "''Hi''"]
  note r = t [THEN conjunct2, THEN conjunct2, THEN conjunct2]
  from t [THEN conjunct1] r [THEN conjunct1]
    r [THEN conjunct2, THEN conjunct2, THEN conjunct1]
    r [THEN conjunct2, THEN conjunct2, THEN conjunct2, THEN conjunct2]
  show ?thesis
    by (simp del: run_calls.simps add: n0 n2)
qed

text \<open>
  Claim C3. When \<^verbatim>\<open>createProcessor\<close> throws in a call of \<^verbatim>\<open>buildMDX\<close> (the key has no
  entry, or an entry with another hash, and the construction fails), the exception
  leaves \<^verbatim>\<open>buildMDX\<close> and the cache is what it was before the call: nothing is stored
  under the key. Only the count of constructor calls has moved.
\<close>

theorem buildMDX_construction_failure:
  assumes "cache w (cacheKey grp (format_str (resolve_format options))) = None \<or>
           configHash (the (cache w (cacheKey grp (format_str (resolve_format options))))) \<noteq> cfgHash"
    and "construction_error env (processor_options_of env options (resolve_format options)) = Some e"
  shows "buildMDX env grp cfgHash source options w
           = (Throws e, w\<lparr>ctor_calls := Suc (ctor_calls w)\<rparr>) \<and>
         cache (snd (buildMDX env grp cfgHash source options w)) = cache w"
  using cached_processor_throws [OF assms] by (simp add: buildMDX_def)

text \<open>
  The theorem at work: a valid entry for \<^verbatim>\<open>docs:mdx\<close> is in the cache, and a build with
  another hash and options the constructor refuses leaves that entry in place.
\<close>

theorem buildMDX_construction_failure_witness:
  "cache (snd (buildMDX ex_env ''docs'' ''B'' ''Hi'' (no_options\<lparr>collection := Some ''broken''\<rparr>)
                 (snd (buildMDX ex_env ''docs'' ''A'' ''Hi'' no_options init_world))))
     = cache (snd (buildMDX ex_env ''docs'' ''A'' ''Hi'' no_options init_world)) \<and>
   fst (buildMDX ex_env ''docs'' ''B'' ''Hi'' (no_options\<lparr>collection := Some ''broken''\<rparr>)
          (snd (buildMDX ex_env ''docs'' ''A'' ''Hi'' no_options init_world)))
     = Throws (Failure ''bad options'')"
proof -
  let ?w = "snd (buildMDX ex_env ''docs'' ''A'' ''Hi'' no_options init_world)"
  let ?o = "no_options\<lparr>collection := Some ''broken''\<rparr>"
  have 1: "cache ?w (cacheKey ''docs'' (format_str (resolve_format ?o))) = None \<or>
           configHash (the (cache ?w (cacheKey ''docs'' (format_str (resolve_format ?o))))) \<noteq> ''B''"
    by (simp add: buildMDX_cache) (simp add: ex_defs build_defs)
  have 2: "construction_error ex_env (processor_options_of ex_env ?o (resolve_format ?o))
             = Some (Failure ''bad options'')"
    by (simp add: ex_defs build_defs)
  show ?thesis
    using buildMDX_construction_failure [OF 1 2, of "''Hi''"] by simp
qed















lemma endsWith_iff: "endsWith s suf \<longleftrightarrow> (\<exists>q. s = q @ suf)"
proof
  assume "endsWith s suf"
  then have "s = take (length s - length suf) s @ suf"
    unfolding endsWith_def by (metis append_take_drop_id)
  then show "\<exists>q. s = q @ suf" ..
next
  assume "\<exists>q. s = q @ suf"
  then show "endsWith s suf" by (auto simp: endsWith_def)
qed

lemma buildMDX_other_keys:
  assumes "k \<noteq> cacheKey grp (format_str (resolve_format options))"
  shows "cache (snd (buildMDX env grp h source options w)) k = cache w k"
proof (cases rule: cached_processor_cases [where w=w and grp=grp and options=options and h=h and env=env])
  case (hit c)
  then show ?thesis using cached_processor_hit [OF hit, of env] by (simp add: buildMDX_cache)
next
  case (throws e)
  then show ?thesis using cached_processor_throws [OF throws] by (simp add: buildMDX_cache)
next
  case builds
  then show ?thesis using assms cached_processor_builds [OF builds] by (simp add: buildMDX_cache)
qed

lemma cached_processor_format:
  assumes "fst (cached_processor env grp h options w) = Inr c"
    and "cache w (cacheKey grp (format_str (resolve_format options))) \<noteq> Some c"
  shows "po_format (popts (processor c)) = resolve_format options"
proof (cases rule: cached_processor_cases [where w=w and grp=grp and options=options and h=h and env=env])
  case (hit c')
  then show ?thesis using assms cached_processor_hit [OF hit, of env] by simp
next
  case (throws e)
  then show ?thesis using assms cached_processor_throws [OF throws] by simp
next
  case builds
  then show ?thesis using assms cached_processor_builds [OF builds]
    by (auto simp: processor_options_of_def)
qed

text \<open>
  Claim C9, as stated: the format is the explicit option; otherwise, when a file path
  is supplied, \<^verbatim>\<open>mdx\<close> if it ends in \<^verbatim>\<open>.mdx\<close> and \<^verbatim>\<open>md\<close> otherwise; otherwise
  \<^verbatim>\<open>mdx\<close>. Line 100 tests the path for truthiness, so the supplied path \<^verbatim>\<open>''\<close>,
  which does not end in \<^verbatim>\<open>.mdx\<close>, gives \<^verbatim>\<open>mdx\<close>: the entry is made under
  \<^verbatim>\<open>docs:mdx\<close>, with format \<^verbatim>\<open>mdx\<close>, and nothing is stored under \<^verbatim>\<open>docs:md\<close>.
\<close>

theorem stated_format_counterexample:
  "resolve_format (no_options\<lparr>filePath := Some ''''\<rparr>) = Mdx \<and>
   stated_format (no_options\<lparr>filePath := Some ''''\<rparr>) = Md \<and>
   cache (snd (buildMDX ex_env ''docs'' ''A'' ''Hi'' (no_options\<lparr>filePath := Some ''''\<rparr>) init_world))
     ''docs:md'' = None \<and>
   map_option (po_format \<circ> popts \<circ> processor)
     (cache (snd (buildMDX ex_env ''docs'' ''A'' ''Hi'' (no_options\<lparr>filePath := Some ''''\<rparr>) init_world))
        ''docs:mdx'') = Some Mdx"
  by (simp add: ex_defs build_defs stated_format_def)

text \<open>
  Claim C9, amended. The format is the explicit option when there is one; otherwise,
  when a non-empty file path is supplied, \<^verbatim>\<open>mdx\<close> if the path ends in \<^verbatim>\<open>.mdx\<close>
  (case-sensitive) and \<^verbatim>\<open>md\<close> otherwise; otherwise (no path, or the empty path)
  \<^verbatim>\<open>mdx\<close>. That format is the one in the cache key, the only key the call touches,
  under which the call's entry is found afterwards; and a processor constructed by the
  call is constructed with that format.
\<close>

theorem buildMDX_format:
  "(format options = Some f \<longrightarrow> resolve_format options = f) \<and>
   (format options = None \<and> filePath options = Some p \<and> p \<noteq> [] \<longrightarrow>
      resolve_format options = (if \<exists>q. p = q @ ''.mdx'' then Mdx else Md)) \<and>
   (format options = None \<and> (filePath options = None \<or> filePath options = Some []) \<longrightarrow>
      resolve_format options = Mdx) \<and>
   (\<forall>k. k \<noteq> cacheKey grp (format_str (resolve_format options)) \<longrightarrow>
      cache (snd (buildMDX env grp h source options w)) k = cache w k) \<and>
   (fst (cached_processor env grp h options w) = Inr c \<longrightarrow>
      cache (snd (buildMDX env grp h source options w))
        (cacheKey grp (format_str (resolve_format options))) = Some c \<and>
      (cache w (cacheKey grp (format_str (resolve_format options))) \<noteq> Some c \<longrightarrow>
         po_format (popts (processor c)) = resolve_format options))"
proof (intro conjI impI allI)
  show "resolve_format options = f" if "format options = Some f"
    using that by (simp add: resolve_format_def)
  show "resolve_format options = (if \<exists>q. p = q @ ''.mdx'' then Mdx else Md)"
    if "format options = None \<and> filePath options = Some p \<and> p \<noteq> []"
    using that by (simp add: resolve_format_def endsWith_iff)
  show "resolve_format options = Mdx"
    if "format options = None \<and> (filePath options = None \<or> filePath options = Some [])"
    using that by (auto simp: resolve_format_def)
  show "cache (snd (buildMDX env grp h source options w)) k = cache w k"
    if "k \<noteq> cacheKey grp (format_str (resolve_format options))" for k
    using that by (rule buildMDX_other_keys)
  show "cache (snd (buildMDX env grp h source options w))
        (cacheKey grp (format_str (resolve_format options))) = Some c"
    if "fst (cached_processor env grp h options w) = Inr c"
    using cached_processor_entry [OF that] by (simp add: buildMDX_cache)
  show "po_format (popts (processor c)) = resolve_format options"
    if "fst (cached_processor env grp h options w) = Inr c"
      "cache w (cacheKey grp (format_str (resolve_format options))) \<noteq> Some c"
    using that by (rule cached_processor_format)
qed

text \<open>The four cases of the rule, and the key and format of a build of \<^verbatim>\<open>/docs/a.md\<close>.\<close>

theorem buildMDX_format_witness:
  "resolve_format (no_options\<lparr>filePath := Some ''/docs/a.md''\<rparr>) = Md \<and>
   resolve_format (no_options\<lparr>filePath := Some ''/docs/a.mdx''\<rparr>) = Mdx \<and>
   resolve_format (no_options\<lparr>filePath := Some ''/docs/a.mdx'', format := Some Md\<rparr>) = Md \<and>
   resolve_format no_options = Mdx \<and>
   map_option (po_format \<circ> popts \<circ> processor)
     (cache (snd (buildMDX ex_env ''docs'' ''A'' ''Hi'' (no_options\<lparr>filePath := Some ''/docs/a.md''\<rparr>)
                    init_world)) ''docs:md'') = Some Md"
proof -
  let ?md = "no_options\<lparr>filePath := Some ''/docs/a.md''\<rparr>"
  have x: "(\<exists>q. ''/docs/a.mdx'' = q @ ''.mdx'') \<and> \<not> (\<exists>q. ''/docs/a.md'' = q @ ''.mdx'')"
    unfolding endsWith_iff [symmetric] by (simp add: endsWith_def)
  have a: "resolve_format ?md = Md"
    using buildMDX_format [of ?md _ "''/docs/a.md''"] x by (simp add: no_options_def)
  have b: "resolve_format (no_options\<lparr>filePath := Some ''/docs/a.mdx''\<rparr>) = Mdx"
    using buildMDX_format [of "no_options\<lparr>filePath := Some ''/docs/a.mdx''\<rparr>" _ "''/docs/a.mdx''"] x
    by (simp add: no_options_def)
  have c: "resolve_format (no_options\<lparr>filePath := Some ''/docs/a.mdx'', format := Some Md\<rparr>) = Md"
    using buildMDX_format [of "no_options\<lparr>filePath := Some ''/docs/a.mdx'', format := Some Md\<rparr>" Md]
    by (simp add: no_options_def)
  have d: "resolve_format no_options = Mdx"
    using buildMDX_format [of no_options] by (simp add: no_options_def)
  have e: "fst (cached_processor ex_env ''docs'' ''A'' ?md init_world)
             = Inr \<lparr>processor = \<lparr>pid = 0, popts = processor_options_of ex_env ?md Md\<rparr>,
                     configHash = ''A''\<rparr>"
    unfolding cached_processor_def a by (simp add: ex_defs build_defs)
  have "cache (snd (buildMDX ex_env ''docs'' ''A'' ''Hi'' ?md init_world))
          (cacheKey ''docs'' (format_str (resolve_format ?md)))
          = Some \<lparr>processor = \<lparr>pid = 0, popts = processor_options_of ex_env ?md Md\<rparr>,
                     configHash = ''A''\<rparr>"
    using buildMDX_format [of ?md _ _ "''docs''" ex_env "''A''" "''Hi''" init_world] e by simp
  then show ?thesis
    unfolding a using a b c d by (simp add: cacheKey_def processor_options_of_def)
qed


section \<open>Properties of the include transform\<close>

subsection \<open>The walk\<close>

text \<open>
  What \<^verbatim>\<open>visit\<close> does with this visitor at one node: it goes into the children of
  a node that is not opaque; it queues a resolvable include directive, unless
  \<^verbatim>\<open>path.dirname\<close> or \<^verbatim>\<open>path.resolve\<close> throws; it stops at any other JSX flow
  element.
\<close>

lemma visit_include:
  "visit ''mdxJsxFlowElement'' (include_visitor env fpath) p n q =
     (if \<not> opaque n then
        (case children n of
           None \<Rightarrow> (None, q)
         | Some cs \<Rightarrow> visit_children ''mdxJsxFlowElement'' (include_visitor env fpath) p 0 cs q)
      else if resolvable n then
        (case path_dirname env fpath of
           Inl e \<Rightarrow> (Some e, q)
         | Inr dir \<Rightarrow>
             (case path_resolve env dir (nvalue (hd (the (children n)))) of
                Inl e \<Rightarrow> (Some e, q)
              | Inr targetPath \<Rightarrow> (None, q @ [(p, targetPath)])))
      else if include_directive n then
        (Some (TypeError ''cannot read properties of undefined (reading at)''), q)
      else (None, q))"
  by (cases n)
    (auto simp add: opaque_def passed_over_def resolvable_def include_directive_def
      include_visitor_def split: option.splits list.splits sum.splits)



lemma visit_children_append_aux:
  assumes "\<And>c p q. c \<in> set cs \<Longrightarrow>
             visit ''mdxJsxFlowElement'' (include_visitor env fpath) p c q =
               (fst (walk_from env fpath p c), q @ snd (walk_from env fpath p c))"
  shows "visit_children ''mdxJsxFlowElement'' (include_visitor env fpath) p k cs q =
           (fst (walk_children env fpath p k cs), q @ snd (walk_children env fpath p k cs))"
  using assms
proof (induction cs arbitrary: k q)
  case Nil
  then show ?case by (simp add: walk_children_def)
next
  case (Cons c cs)
  have c: "visit ''mdxJsxFlowElement'' (include_visitor env fpath) (p @ [k]) c q' =
             (fst (walk_from env fpath (p @ [k]) c), q' @ snd (walk_from env fpath (p @ [k]) c))"
    for q'
    by (rule Cons.prems) simp
  have cs: "visit_children ''mdxJsxFlowElement'' (include_visitor env fpath) p (Suc k) cs q' =
           (fst (walk_children env fpath p (Suc k) cs),
            q' @ snd (walk_children env fpath p (Suc k) cs))" for q'
    by (rule Cons.IH) (simp add: Cons.prems)
  show ?case
    unfolding walk_children_def [of _ _ _ _ "c # cs"]
    by (simp add: c cs split: option.splits prod.splits)
qed

lemma visit_append:
  "visit ''mdxJsxFlowElement'' (include_visitor env fpath) p n q =
     (fst (walk_from env fpath p n), q @ snd (walk_from env fpath p n))"
proof (induction n arbitrary: p q)
  case (Node ty nm at v ch ps)
  have "visit_children ''mdxJsxFlowElement'' (include_visitor env fpath) p k cs q =
           (fst (walk_children env fpath p k cs), q @ snd (walk_children env fpath p k cs))"
    if "ch = Some cs" for cs k q
    by (rule visit_children_append_aux) (use that Node.IH in simp)
  then show ?case
    unfolding walk_from_def [of _ _ _ "Node ty nm at v ch ps"]
    by (simp add: visit_include [where n = "Node ty nm at v ch ps"] del: visit.simps
          split: option.splits sum.splits)
qed

lemma visit_children_append:
  "visit_children ''mdxJsxFlowElement'' (include_visitor env fpath) p k cs q =
     (fst (walk_children env fpath p k cs), q @ snd (walk_children env fpath p k cs))"
  by (rule visit_children_append_aux) (rule visit_append)

lemma walk_from_eq:
  "walk_from env fpath p n =
     (if \<not> opaque n then
        (case children n of None \<Rightarrow> (None, []) | Some cs \<Rightarrow> walk_children env fpath p 0 cs)
      else if resolvable n then
        (case path_dirname env fpath of
           Inl e \<Rightarrow> (Some e, [])
         | Inr dir \<Rightarrow>
             (case path_resolve env dir (nvalue (hd (the (children n)))) of
                Inl e \<Rightarrow> (Some e, [])
              | Inr targetPath \<Rightarrow> (None, [(p, targetPath)])))
      else if include_directive n then
        (Some (TypeError ''cannot read properties of undefined (reading at)''), [])
      else (None, []))"
  unfolding walk_from_def walk_children_def
  by (simp add: visit_include del: visit.simps split: option.splits sum.splits)

lemma walk_children_Nil [simp]: "walk_children env fpath p k [] = (None, [])"
  by (simp add: walk_children_def)

lemma walk_children_Cons:
  "walk_children env fpath p k (c # cs) =
     (case fst (walk_from env fpath (p @ [k]) c) of
        Some e \<Rightarrow> (Some e, snd (walk_from env fpath (p @ [k]) c))
      | None \<Rightarrow>
          (fst (walk_children env fpath p (Suc k) cs),
           snd (walk_from env fpath (p @ [k]) c) @ snd (walk_children env fpath p (Suc k) cs)))"
  unfolding walk_children_def [of _ _ _ _ "c # cs"]
  by (simp add: visit_append visit_children_append split: option.splits prod.splits)


lemma walk_children_member:
  assumes "s \<in> set (snd (walk_children env fpath p k cs))"
  shows "\<exists>j<length cs. s \<in> set (snd (walk_from env fpath (p @ [k + j]) (cs ! j)))"
  using assms
proof (induction cs arbitrary: k)
  case Nil
  then show ?case by simp
next
  case (Cons c cs)
  from Cons.prems consider
    (here) "s \<in> set (snd (walk_from env fpath (p @ [k]) c))"
    | (later) "s \<in> set (snd (walk_children env fpath p (Suc k) cs))"
    by (auto simp: walk_children_Cons split: option.splits)
  then show ?case
  proof cases
    case here
    then have "0 < length (c # cs) \<and>
        s \<in> set (snd (walk_from env fpath (p @ [k + 0]) ((c # cs) ! 0)))" by simp
    then show ?thesis by blast
  next
    case later
    from Cons.IH [OF later] obtain j where "j < length cs"
      "s \<in> set (snd (walk_from env fpath (p @ [Suc k + j]) (cs ! j)))" by blast
    then have "Suc j < length (c # cs) \<and>
        s \<in> set (snd (walk_from env fpath (p @ [k + Suc j]) ((c # cs) ! Suc j)))" by simp
    then show ?thesis by blast
  qed
qed

lemma walk_children_complete:
  assumes "fst (walk_children env fpath p k cs) = None" and "j < length cs"
  shows "fst (walk_from env fpath (p @ [k + j]) (cs ! j)) = None \<and>
         set (snd (walk_from env fpath (p @ [k + j]) (cs ! j)))
           \<subseteq> set (snd (walk_children env fpath p k cs))"
  using assms
proof (induction cs arbitrary: k j)
  case Nil
  then show ?case by simp
next
  case (Cons c cs)
  from Cons.prems(1) have c: "fst (walk_from env fpath (p @ [k]) c) = None"
    and cs: "fst (walk_children env fpath p (Suc k) cs) = None"
    by (auto simp: walk_children_Cons split: option.splits)
  show ?case
  proof (cases j)
    case 0
    then show ?thesis using c by (simp add: walk_children_Cons)
  next
    case (Suc j')
    with Cons.prems(2) have "j' < length cs" by simp
    from Cons.IH [OF cs this] show ?thesis
      using c Suc by (auto simp: walk_children_Cons)
  qed
qed

lemma walk_sound:
  assumes "s \<in> set (snd (walk_from env fpath p n))"
  shows "\<exists>r m fp v. fst s = p @ r \<and> reaches n r \<and> node_at r n = Some m \<and> resolvable m \<and>
           fpath = Some fp \<and> nvalue (hd (the (children m))) = Some v \<and>
           snd s = resolve env (dirname env fp) v"
  using assms
proof (induction n arbitrary: p)
  case (Node ty nm at v ch ps)
  let ?n = "Node ty nm at v ch ps"
  show ?case
  proof (cases "opaque ?n")
    case True
    with Node.prems have "resolvable ?n" and
      "\<exists>fp v. fpath = Some fp \<and> nvalue (hd (the (children ?n))) = Some v \<and>
          s = (p, resolve env (dirname env fp) v)"
      by (auto simp: walk_from_eq [of _ _ _ ?n] path_dirname_def path_resolve_def
            split: if_splits sum.splits option.splits)
    then have "fst s = p @ [] \<and> reaches ?n [] \<and> node_at [] ?n = Some ?n \<and> resolvable ?n \<and>
       (\<exists>fp v. fpath = Some fp \<and> nvalue (hd (the (children ?n))) = Some v \<and>
           snd s = resolve env (dirname env fp) v)" by auto
    then show ?thesis by blast
  next
    case False
    with Node.prems obtain cs where ch: "ch = Some cs"
      and s: "s \<in> set (snd (walk_children env fpath p 0 cs))"
      by (auto simp: walk_from_eq [of _ _ _ ?n] split: option.splits)
    from walk_children_member [OF s] obtain j where j: "j < length cs"
      and sj: "s \<in> set (snd (walk_from env fpath (p @ [j]) (cs ! j)))" by auto
    have "cs ! j \<in> set cs" using j by simp
    from Node.IH [OF _ this sj] ch obtain r m fp v' where
      "fst s = (p @ [j]) @ r" "reaches (cs ! j) r" "node_at r (cs ! j) = Some m" "resolvable m"
      "fpath = Some fp" "nvalue (hd (the (children m))) = Some v'"
      "snd s = resolve env (dirname env fp) v'"
      by auto
    then have "fst s = p @ (j # r) \<and> reaches ?n (j # r) \<and> node_at (j # r) ?n = Some m \<and>
        resolvable m \<and> fpath = Some fp \<and> nvalue (hd (the (children m))) = Some v' \<and>
           snd s = resolve env (dirname env fp) v'"
      using False ch j by simp
    then show ?thesis by blast
  qed
qed

lemma resolvable_opaque: "resolvable n \<Longrightarrow> opaque n"
  by (auto simp: resolvable_def opaque_def passed_over_def include_directive_def
        split: option.splits list.splits)

lemma walk_complete:
  assumes "fst (walk_from env fpath p n) = None"
    and "reaches n r" and "node_at r n = Some m" and "resolvable m"
  shows "p @ r \<in> fst ` set (snd (walk_from env fpath p n))"
  using assms
proof (induction r arbitrary: n p)
  case Nil
  then have "resolvable n" by simp
  with Nil.prems(1) show ?case
    by (auto simp: walk_from_eq [of _ _ _ n] resolvable_opaque split: sum.splits)
next
  case (Cons i r)
  from Cons.prems(2) obtain cs where no: "\<not> opaque n" and ch: "children n = Some cs"
    and i: "i < length cs" and re: "reaches (cs ! i) r"
    by (auto split: option.splits)
  from Cons.prems(1) no ch have "fst (walk_children env fpath p 0 cs) = None"
    by (simp add: walk_from_eq [of _ _ _ n])
  from walk_children_complete [OF this i]
  have 1: "fst (walk_from env fpath (p @ [i]) (cs ! i)) = None"
    and 2: "set (snd (walk_from env fpath (p @ [i]) (cs ! i)))
             \<subseteq> set (snd (walk_children env fpath p 0 cs))" by simp_all
  from Cons.prems(3) ch i have "node_at r (cs ! i) = Some m" by simp
  from Cons.IH [OF 1 re this Cons.prems(4)] 2
  show ?case using no ch by (auto simp: walk_from_eq [of _ _ _ n])
qed


lemma doc_before_irrefl: "\<not> doc_before r r"
  unfolding doc_before_def by (rule lexord_irreflexive) simp

lemma doc_before_siblings: "k < k' \<Longrightarrow> doc_before ((p @ [k]) @ r) ((p @ [k']) @ r')"
  unfolding doc_before_def by (simp add: lexord_append_leftI)

lemma sorted_wrt_distinct_irrefl:
  assumes "sorted_wrt P xs" and "\<And>x. \<not> P x x"
  shows "distinct xs"
  using assms by (induction xs) auto

lemma walk_children_sorted:
  assumes "\<And>c p. c \<in> set cs \<Longrightarrow> sorted_wrt doc_before (map fst (snd (walk_from env fpath p c)))"
  shows "sorted_wrt doc_before (map fst (snd (walk_children env fpath p k cs)))"
  using assms
proof (induction cs arbitrary: k)
  case Nil
  then show ?case by simp
next
  case (Cons c cs)
  have c: "sorted_wrt doc_before (map fst (snd (walk_from env fpath (p @ [k]) c)))"
    by (rule Cons.prems) simp
  have cs: "sorted_wrt doc_before (map fst (snd (walk_children env fpath p (Suc k) cs)))"
    by (rule Cons.IH) (simp add: Cons.prems)
  have "doc_before (fst x) (fst y)"
    if x: "x \<in> set (snd (walk_from env fpath (p @ [k]) c))"
      and y: "y \<in> set (snd (walk_children env fpath p (Suc k) cs))" for x y
  proof -
    from walk_sound [OF x] obtain r where r: "fst x = (p @ [k]) @ r" by blast
    from walk_children_member [OF y] obtain j
      where "y \<in> set (snd (walk_from env fpath (p @ [Suc k + j]) (cs ! j)))" by blast
    from walk_sound [OF this] obtain r' where "fst y = (p @ [Suc k + j]) @ r'" by blast
    with r show ?thesis using doc_before_siblings [of k "Suc k + j" p r r'] by simp
  qed
  with c cs show ?case
    by (auto simp: walk_children_Cons sorted_wrt_append split: option.splits)
qed

lemma walk_sorted: "sorted_wrt doc_before (map fst (snd (walk_from env fpath p n)))"
proof (induction n arbitrary: p)
  case (Node ty nm at v ch ps)
  have "sorted_wrt doc_before (map fst (snd (walk_children env fpath p k cs)))"
    if "ch = Some cs" for cs k
    by (rule walk_children_sorted) (use that Node.IH in simp)
  then show ?case
    by (simp add: walk_from_eq [of _ _ _ "Node ty nm at v ch ps"] split: option.splits sum.splits)
qed

lemma walk_distinct: "distinct (map fst (snd (walk_from env fpath p n)))"
  using walk_sorted doc_before_irrefl by (rule sorted_wrt_distinct_irrefl)

lemma reaches_above:
  assumes "reaches n r'" and "strict_prefix r r'" and "node_at r n = Some m"
  shows "\<not> opaque m"
  using assms
proof (induction r arbitrary: n r')
  case Nil
  then obtain i r0 where "r' = i # r0" by (cases r') auto
  with Nil show ?case by simp
next
  case (Cons i r)
  from Cons.prems(2) obtain r0 where r': "r' = i # r0" and sp: "strict_prefix r r0"
    by (cases r') auto
  from Cons.prems(1) r' obtain cs where "children n = Some cs" "i < length cs" "reaches (cs ! i) r0"
    by (auto split: option.splits)
  with Cons.IH [OF this(3) sp] Cons.prems(3) show ?case by simp
qed

lemma walk_incomparable:
  assumes "s \<in> set (snd (walk_from env fpath p n))" and "s' \<in> set (snd (walk_from env fpath p n))"
    and "prefix (fst s) (fst s')"
  shows "fst s = fst s'"
proof (rule ccontr)
  assume ne: "fst s \<noteq> fst s'"
  from walk_sound [OF assms(1)] obtain r m where
    r: "fst s = p @ r" "node_at r n = Some m" "resolvable m" by blast
  from walk_sound [OF assms(2)] obtain r' where
    r': "fst s' = p @ r'" "reaches n r'" by blast
  from assms(3) ne r(1) r'(1) have "strict_prefix r r'"
    by (simp add: strict_prefix_def)
  from reaches_above [OF r'(2) this r(2)] r(3) show False
    by (simp add: resolvable_opaque)
qed


text \<open>
  Reaching, said without recursion: the node exists and no node strictly above it is
  opaque.
\<close>

lemma reaches_iff:
  "reaches n r \<longleftrightarrow>
     node_at r n \<noteq> None \<and>
     (\<forall>r' m'. strict_prefix r' r \<longrightarrow> node_at r' n = Some m' \<longrightarrow> \<not> opaque m')"
proof (induction r arbitrary: n)
  case Nil
  then show ?case by simp
next
  case (Cons i r)
  show ?case
  proof
    assume re: "reaches n (i # r)"
    then obtain cs where no: "\<not> opaque n" and ch: "children n = Some cs" and i: "i < length cs"
      and rr: "reaches (cs ! i) r"
      by (auto split: option.splits)
    from rr Cons.IH have 1: "node_at r (cs ! i) \<noteq> None"
      and 2: "\<And>r' m'. strict_prefix r' r \<Longrightarrow> node_at r' (cs ! i) = Some m' \<Longrightarrow> \<not> opaque m'"
      by blast+
    have "\<not> opaque m'" if "strict_prefix r' (i # r)" "node_at r' n = Some m'" for r' m'
    proof (cases r')
      case Nil
      with that no show ?thesis by simp
    next
      case (Cons j r'')
      with that ch i show ?thesis using 2 [of r'' m'] by simp
    qed
    with 1 ch i show "node_at (i # r) n \<noteq> None \<and>
     (\<forall>r' m'. strict_prefix r' (i # r) \<longrightarrow> node_at r' n = Some m' \<longrightarrow> \<not> opaque m')"
      by simp
  next
    assume a: "node_at (i # r) n \<noteq> None \<and>
     (\<forall>r' m'. strict_prefix r' (i # r) \<longrightarrow> node_at r' n = Some m' \<longrightarrow> \<not> opaque m')"
    then obtain cs where ch: "children n = Some cs" and i: "i < length cs"
      and 1: "node_at r (cs ! i) \<noteq> None"
      by (auto split: option.splits if_splits)
    have "strict_prefix [] (i # r)" "node_at [] n = Some n" by simp_all
    with a have no: "\<not> opaque n" by blast
    have "\<not> opaque m'" if "strict_prefix r' r" "node_at r' (cs ! i) = Some m'" for r' m'
    proof -
      from that ch i have "strict_prefix (i # r') (i # r)" "node_at (i # r') n = Some m'"
        by simp_all
      with a show ?thesis by blast
    qed
    with 1 Cons.IH have "reaches (cs ! i) r" by blast
    with no ch i show "reaches n (i # r)" by simp
  qed
qed

subsection \<open>Assignment through paths\<close>

lemma node_at_assign_same:
  "node_at p t = Some n \<Longrightarrow> node_at p (assign_at p parsed t) = Some (object_assign n parsed)"
proof (induction p arbitrary: t)
  case Nil
  then show ?case by simp
next
  case (Cons i p)
  then show ?case by (cases t) (auto split: option.splits if_splits)
qed

lemma node_at_assign_incomparable:
  "\<not> prefix p q \<Longrightarrow> \<not> prefix q p \<Longrightarrow> node_at q (assign_at p parsed t) = node_at q t"
proof (induction p arbitrary: q t)
  case Nil
  then show ?case by simp
next
  case (Cons i p)
  then obtain j q' where q: "q = j # q'" by (cases q) auto
  show ?case
  proof (cases "i = j")
    case True
    with Cons.prems q have "\<not> prefix p q'" "\<not> prefix q' p" by simp_all
    from Cons.IH [OF this] show ?thesis using q True
      by (cases t) (auto split: option.splits)
  next
    case False
    then show ?thesis using q by (cases t) (auto split: option.splits)
  qed
qed

lemma node_at_assign_below:
  "node_at q t = Some n \<Longrightarrow> r \<noteq> [] \<Longrightarrow>
     node_at q (assign_at (q @ r) parsed t) = Some (assign_at r parsed n)"
proof (induction q arbitrary: t)
  case Nil
  then show ?case by simp
next
  case (Cons i q)
  then show ?case by (cases t) (auto split: option.splits if_splits)
qed

lemma same_shell_refl [simp]: "same_shell n n"
  by (simp add: same_shell_def)

lemma same_shell_trans: "same_shell a b \<Longrightarrow> same_shell b c \<Longrightarrow> same_shell a c"
  by (simp add: same_shell_def)

lemma same_shell_assign_at: "r \<noteq> [] \<Longrightarrow> same_shell n (assign_at r parsed n)"
  by (cases r; cases n; cases "children n") (auto simp: same_shell_def)

lemma assign_all_frame:
  assumes "\<forall>s\<in>set ss. \<not> prefix (fst s) q \<and> \<not> prefix q (fst s)"
  shows "node_at q (assign_all env this ss t) = node_at q t"
  using assms
proof (induction ss arbitrary: t)
  case Nil
  then show ?case by simp
next
  case (Cons s ss)
  then show ?case
    by (simp add: node_at_assign_incomparable split: sum.splits)
qed

lemma assign_all_site:
  assumes "distinct (map fst ss)"
    and "\<forall>a\<in>set ss. \<forall>b\<in>set ss. prefix (fst a) (fst b) \<longrightarrow> fst a = fst b"
    and "(p, tgt) \<in> set ss" and "node_at p t = Some n"
    and "parsed_include env this tgt = Inr parsed"
  shows "node_at p (assign_all env this ss t) = Some (object_assign n parsed)"
  using assms
proof (induction ss arbitrary: t)
  case Nil
  then show ?case by simp
next
  case (Cons s ss)
  show ?case
  proof (cases "s = (p, tgt)")
    case True
    have "\<forall>a\<in>set ss. \<not> prefix (fst a) p \<and> \<not> prefix p (fst a)"
    proof
      fix a assume a: "a \<in> set ss"
      with Cons.prems(1) True have "fst a \<noteq> p" by (auto simp: image_iff)
      with Cons.prems(2) a True show "\<not> prefix (fst a) p \<and> \<not> prefix p (fst a)"
        by (metis fst_conv list.set_intros(1,2))
    qed
    from assign_all_frame [OF this] show ?thesis
      using True Cons.prems(4,5) by (simp add: node_at_assign_same)
  next
    case False
    with Cons.prems(3) have in_ss: "(p, tgt) \<in> set ss" by simp
    with Cons.prems(1) have "fst s \<noteq> p" by (auto simp: image_iff)
    with Cons.prems(2) in_ss have inc: "\<not> prefix (fst s) p" "\<not> prefix p (fst s)"
      by (metis fst_conv list.set_intros(1,2))+
    have t': "node_at p (case parsed_include env this (snd s) of
                Inl _ \<Rightarrow> t | Inr parsed \<Rightarrow> assign_at (fst s) parsed t) = Some n"
      using Cons.prems(4) inc by (simp add: node_at_assign_incomparable split: sum.splits)
    have "node_at p (assign_all env this ss
            (case parsed_include env this (snd s) of
                Inl _ \<Rightarrow> t | Inr parsed \<Rightarrow> assign_at (fst s) parsed t)) =
          Some (object_assign n parsed)"
      using Cons.prems(1,2) in_ss t' Cons.prems(5) by (intro Cons.IH) simp_all
    then show ?thesis by simp
  qed
qed

lemma assign_all_shell:
  assumes "\<forall>s\<in>set ss. \<not> prefix (fst s) q" and "node_at q t = Some n"
  shows "\<exists>n'. node_at q (assign_all env this ss t) = Some n' \<and> same_shell n n'"
  using assms
proof (induction ss arbitrary: t n)
  case Nil
  then show ?case by simp
next
  case (Cons s ss)
  let ?t = "case parsed_include env this (snd s) of
                Inl _ \<Rightarrow> t | Inr parsed \<Rightarrow> assign_at (fst s) parsed t"
  have "\<exists>n1. node_at q ?t = Some n1 \<and> same_shell n n1"
  proof (cases "parsed_include env this (snd s)")
    case (Inl e)
    then show ?thesis using Cons.prems(2) by simp
  next
    case (Inr parsed)
    show ?thesis
    proof (cases "prefix q (fst s)")
      case True
      then obtain r where r: "fst s = q @ r" by (auto simp: prefix_def)
      with Cons.prems(1) have "r \<noteq> []" by auto
      with r Inr Cons.prems(2) show ?thesis
        by (simp add: node_at_assign_below same_shell_assign_at)
    next
      case False
      with Cons.prems(1) have "\<not> prefix (fst s) q" "\<not> prefix q (fst s)" by simp_all
      with Inr Cons.prems(2) show ?thesis by (simp add: node_at_assign_incomparable)
    qed
  qed
  then obtain n1 where n1: "node_at q ?t = Some n1" "same_shell n n1" by blast
  from Cons.prems(1) have "\<forall>s\<in>set ss. \<not> prefix (fst s) q" by simp
  from Cons.IH [OF this n1(1)] obtain n' where
    "node_at q (assign_all env this ss ?t) = Some n'" "same_shell n1 n'" by blast
  with n1(2) show ?case by (auto intro: same_shell_trans)
qed

lemma settle_all_recorder:
  "settle_all env this True ss (t, d) =
     (first_failure env this ss, assign_all env this ss t,
      d @ map snd (filter (resolves env this) ss))"
  by (induction ss arbitrary: t d)
    (simp_all add: resolve_include_def resolves_def split: sum.splits)

lemma settle_all_no_recorder:
  "settle_all env this False ss (t, d) =
     (first_failure env this ss, assign_all env this ss t, d)"
  by (induction ss arbitrary: t d)
    (simp_all add: resolve_include_def split: sum.splits)

lemma settle_all_eq:
  "settle_all env this c ss (t, d) =
     (first_failure env this ss, assign_all env this ss t,
      d @ (if c then map snd (filter (resolves env this) ss) else []))"
  by (cases c) (simp_all add: settle_all_recorder settle_all_no_recorder)

lemma remarkInclude_eq:
  "remarkInclude env this c fpath tree w =
     (let queue = snd (walk env fpath tree);
          ss = sort_key (latency env) queue;
          w' = w\<lparr>reads := reads w @ map snd queue,
                 deps := deps w @ (if c then map snd (filter (resolves env this) ss) else [])\<rparr>
      in case fst (walk env fpath tree) of
           Some e \<Rightarrow> (Inl e, w')
         | None \<Rightarrow>
             (case first_failure env this ss of
                Some e \<Rightarrow> (Inl e, w')
              | None \<Rightarrow> (Inr (assign_all env this ss tree), w')))"
  by (cases "walk env fpath tree") (simp add: remarkInclude_def settle_all_eq Let_def)


lemma walk_children_no_path:
  assumes "\<And>c p. c \<in> set cs \<Longrightarrow> snd (walk_from env None p c) = []"
  shows "snd (walk_children env None p k cs) = []"
  using assms
  by (induction cs arbitrary: k) (simp_all add: walk_children_Cons split: option.splits)

lemma walk_no_path: "snd (walk_from env None p n) = []"
proof (induction n arbitrary: p)
  case (Node ty nm at v ch ps)
  have "snd (walk_children env None p k cs) = []" if "ch = Some cs" for cs k
    by (rule walk_children_no_path) (use that Node.IH in simp)
  then show ?case
    by (simp add: walk_from_eq [of _ _ _ "Node ty nm at v ch ps"] path_dirname_def
          split: option.splits sum.splits)
qed

lemma walk_children_error:
  assumes "\<And>c p e. c \<in> set cs \<Longrightarrow> fst (walk_from env fpath p c) = Some e \<Longrightarrow> \<exists>msg. e = TypeError msg"
    and "fst (walk_children env fpath p k cs) = Some e"
  shows "\<exists>msg. e = TypeError msg"
  using assms
proof (induction cs arbitrary: k)
  case Nil
  then show ?case by simp
next
  case (Cons c cs)
  show ?case
  proof (cases "fst (walk_from env fpath (p @ [k]) c)")
    case None
    with Cons.prems(2) have "fst (walk_children env fpath p (Suc k) cs) = Some e"
      by (simp add: walk_children_Cons)
    then show ?thesis by (rule Cons.IH [rotated]) (use Cons.prems(1) in auto)
  next
    case (Some e')
    with Cons.prems(2) have "e' = e" by (simp add: walk_children_Cons)
    with Some show ?thesis using Cons.prems(1) [of c "p @ [k]" e] by simp
  qed
qed

lemma walk_error:
  "fst (walk_from env fpath p n) = Some e \<Longrightarrow> \<exists>msg. e = TypeError msg"
proof (induction n arbitrary: p e)
  case (Node ty nm at v ch ps)
  have "\<exists>msg. e = TypeError msg"
    if "ch = Some cs" "fst (walk_children env fpath p k cs) = Some e" for cs k
    using that(2) by (rule walk_children_error [rotated]) (use that(1) Node.IH in auto)
  with Node.prems show ?case
    by (auto simp: walk_from_eq [of _ _ _ "Node ty nm at v ch ps"] path_dirname_def
          path_resolve_def split: option.splits sum.splits if_splits)
qed

lemma walk_walk_from: "walk env fpath tree = walk_from env fpath [] tree"
  by (simp add: walk_def walk_from_def)

lemma first_failure_None:
  "first_failure env this ss = None \<Longrightarrow> s \<in> set ss \<Longrightarrow> resolves env this s"
  by (induction ss) (auto simp: resolves_def split: sum.splits)

lemma first_failure_member:
  "first_failure env this ss = Some e \<Longrightarrow>
     \<exists>s'\<in>set ss. parsed_include env this (snd s') = Inl e"
proof (induction ss)
  case Nil
  then show ?case by simp
next
  case (Cons s ss)
  then show ?case by (cases "parsed_include env this (snd s)") auto
qed

lemma first_failure_Some:
  assumes "s \<in> set ss" and "\<not> resolves env this s"
  shows "\<exists>e. first_failure env this ss = Some e"
  using first_failure_None [of env this ss s] assms by (cases "first_failure env this ss") auto

lemma resolvable_not_passed_over: "resolvable n \<Longrightarrow> \<not> passed_over n"
  by (auto simp: resolvable_def passed_over_def split: option.splits list.splits)


subsection \<open>The transform as a whole\<close>

lemma queue_sorted_props:
  "set (sort_key (latency env) queue) = set queue"
  "distinct (map fst (sort_key (latency env) queue)) = distinct (map fst queue)"
proof -
  show "set (sort_key (latency env) queue) = set queue" by simp
  have "mset (map fst (sort_key (latency env) queue)) = mset (map fst queue)"
    by (metis mset_map mset_sort)
  then show "distinct (map fst (sort_key (latency env) queue)) = distinct (map fst queue)"
    by (rule mset_eq_imp_distinct_iff)
qed

lemma remarkInclude_Inr:
  assumes "remarkInclude env this c fpath tree w = (Inr tree', w')"
  shows "fst (walk env fpath tree) = None"
    and "first_failure env this (sort_key (latency env) (snd (walk env fpath tree))) = None"
    and "tree' = assign_all env this (sort_key (latency env) (snd (walk env fpath tree))) tree"
  using assms by (auto simp: remarkInclude_eq Let_def split: option.splits)

lemma parse_attached: "parse env this src = Inr t \<Longrightarrow> attach_error env this = None"
  by (cases "attach_error env this") (simp_all add: parse_def)

lemma cached_processor_reads:
  "reads (snd (cached_processor env grp h options w)) = reads w"
  "deps (snd (cached_processor env grp h options w)) = deps w"
  by (auto simp: cached_processor_def createProcessor_def Let_def split: option.splits)

section \<open>The claims about the include transform\<close>

text \<open>
  Claim C4, as stated: the walk finds every include directive of the tree, also one
  nested inside another JSX element, and does not go below an include directive. In
  the tree below, the directive inside the \<^verbatim>\<open>div\<close> (path 0,0) is resolvable and is not
  queued, since line 78 returns \<^verbatim>\<open>'skip'\<close> for the \<^verbatim>\<open>div\<close>; and the walk goes below
  the include directive at path 1, whose first child is not text (line 61 returns
  \<^verbatim>\<open>undefined\<close>), and queues the directive inside it.
\<close>

theorem walk_nested_counterexample:
  "walk ex_env (Some ''/docs/a.mdx'') ex_tree_nested = (None, [([1, 0], ''/docs/b.mdx'')]) \<and>
   map_option resolvable (node_at [0, 0] ex_tree_nested) = Some True \<and>
   map_option include_directive (node_at [1] ex_tree_nested) = Some True"
  by (simp add: ex_defs ex_tree_nested_def build_defs resolvable_def include_directive_def)

text \<open>
  Claim C4, amended. When the walk completes, the queue holds, in document order
  (depth first, parents before children), exactly the include directives with a text
  first child that have no opaque node strictly above them, an opaque node being a JSX
  flow element other than an include directive whose first child is missing or not
  text; and no queued directive lies below another queued directive.
\<close>

theorem walk_locates_includes:
  assumes "walk env fpath tree = (None, queue)"
  shows "sorted_wrt doc_before (map fst queue) \<and>
         set (map fst queue) =
           {r. (\<exists>m. node_at r tree = Some m \<and> resolvable m) \<and>
               (\<forall>r' m'. strict_prefix r' r \<longrightarrow> node_at r' tree = Some m' \<longrightarrow> \<not> opaque m')} \<and>
         (\<forall>s\<in>set queue. \<forall>s'\<in>set queue. prefix (fst s) (fst s') \<longrightarrow> s = s')"
proof (intro conjI ballI impI)
  from assms have fst: "fst (walk_from env fpath [] tree) = None"
    and snd: "snd (walk_from env fpath [] tree) = queue"
    by (simp_all add: walk_walk_from)
  show "sorted_wrt doc_before (map fst queue)"
    using walk_sorted [of env fpath "[]" tree] by (simp add: snd)
  have "set (map fst queue) = {r. reaches tree r \<and> (\<exists>m. node_at r tree = Some m \<and> resolvable m)}"
  proof (intro equalityI subsetI)
    fix r assume "r \<in> set (map fst queue)"
    then obtain s where "s \<in> set (snd (walk_from env fpath [] tree))" "r = fst s"
      by (auto simp: snd)
    with walk_sound [OF this(1)]
    show "r \<in> {r. reaches tree r \<and> (\<exists>m. node_at r tree = Some m \<and> resolvable m)}"
      by auto
  next
    fix r assume "r \<in> {r. reaches tree r \<and> (\<exists>m. node_at r tree = Some m \<and> resolvable m)}"
    then obtain m where "reaches tree r" "node_at r tree = Some m" "resolvable m" by blast
    from walk_complete [OF fst this] show "r \<in> set (map fst queue)"
      by (simp add: snd)
  qed
  also have "\<dots> = {r. (\<exists>m. node_at r tree = Some m \<and> resolvable m) \<and>
               (\<forall>r' m'. strict_prefix r' r \<longrightarrow> node_at r' tree = Some m' \<longrightarrow> \<not> opaque m')}"
    by (auto simp: reaches_iff)
  finally show "set (map fst queue) =
           {r. (\<exists>m. node_at r tree = Some m \<and> resolvable m) \<and>
               (\<forall>r' m'. strict_prefix r' r \<longrightarrow> node_at r' tree = Some m' \<longrightarrow> \<not> opaque m')}" .
  fix s s' assume s: "s \<in> set queue" "s' \<in> set queue" and "prefix (fst s) (fst s')"
  then have "fst s = fst s'"
    using walk_incomparable [of s env fpath "[]" tree s'] by (simp add: snd)
  moreover have "distinct (map fst queue)"
    using walk_distinct [of env fpath "[]" tree] by (simp add: snd)
  ultimately show "s = s'"
    using s by (simp add: distinct_map inj_on_def)
qed

text \<open>The only directive the walk reaches in the tree of the counterexample.\<close>

theorem walk_locates_includes_witness:
  "{r. (\<exists>m. node_at r ex_tree_nested = Some m \<and> resolvable m) \<and>
       (\<forall>r' m'. strict_prefix r' r \<longrightarrow> node_at r' ex_tree_nested = Some m' \<longrightarrow> \<not> opaque m')}
   = {[1, 0]}"
proof -
  have "walk ex_env (Some ''/docs/a.mdx'') ex_tree_nested = (None, [([1, 0], ''/docs/b.mdx'')])"
    by (simp add: ex_defs ex_tree_nested_def build_defs)
  from walk_locates_includes [OF this] show ?thesis by simp
qed

text \<open>
  Claim C5, as stated: every field of a resolved include node is overwritten, so that
  no include-specific field such as its name survives. \<^verbatim>\<open>Object.assign\<close> copies the
  properties the parsed root has (type, children, position); the node keeps its
  \<^verbatim>\<open>name\<close> and its \<^verbatim>\<open>attributes\<close>, which a root does not have.
\<close>

theorem include_name_survives_counterexample:
  "fst (remarkInclude ex_env ex_this False (Some ''/docs/a.mdx'') ex_tree_one init_world)
     = Inr (root_node
         [Node ''root'' (Some ''include'') (Some []) None
            (Some [Node ''paragraph'' None None None (Some [text_node ''Hello'']) None])
            (Some (0, 0))])"
  by (simp add: ex_defs ex_tree_one_def build_defs)

text \<open>
  Claim C5, amended. After a transform that fulfils, every queued include directive
  is, at its old place in the tree, the result of \<^verbatim>\<open>Object.assign\<close>: its type is the
  parsed root's, and each optional property is the parsed root's when the root has
  it and the node's own otherwise (so the name stays \<^verbatim>\<open>include\<close> when the root has
  no name). Every node on a path that neither leads to nor passes through a queued
  directive is what it was.
\<close>

theorem remarkInclude_overwrites:
  assumes "remarkInclude env this c fpath tree w = (Inr tree', w')"
    and "(p, target) \<in> set (snd (walk env fpath tree))"
  shows "\<exists>n parsed. node_at p tree = Some n \<and> include_directive n \<and>
           parsed_include env this target = Inr parsed \<and>
           node_at p tree' = Some (object_assign n parsed) \<and>
           ntype (object_assign n parsed) = ntype parsed \<and>
           name (object_assign n parsed)
             = (case name parsed of None \<Rightarrow> Some ''include'' | Some x \<Rightarrow> Some x) \<and>
           attributes (object_assign n parsed)
             = (case attributes parsed of None \<Rightarrow> attributes n | Some x \<Rightarrow> Some x) \<and>
           nvalue (object_assign n parsed)
             = (case nvalue parsed of None \<Rightarrow> nvalue n | Some x \<Rightarrow> Some x) \<and>
           children (object_assign n parsed)
             = (case children parsed of None \<Rightarrow> children n | Some x \<Rightarrow> Some x) \<and>
           position (object_assign n parsed)
             = (case position parsed of None \<Rightarrow> position n | Some x \<Rightarrow> Some x) \<and>
           (\<forall>q. (\<forall>s\<in>set (snd (walk env fpath tree)). \<not> prefix (fst s) q \<and> \<not> prefix q (fst s))
                  \<longrightarrow> node_at q tree' = node_at q tree)"
proof -
  let ?queue = "snd (walk env fpath tree)"
  let ?ss = "sort_key (latency env) ?queue"
  note r = remarkInclude_Inr [OF assms(1)]
  from assms(2) have in_q: "(p, target) \<in> set (snd (walk_from env fpath [] tree))"
    by (simp add: walk_walk_from)
  from walk_sound [OF in_q] obtain n where n: "node_at p tree = Some n" "resolvable n"
    by auto
  from assms(2) have in_ss: "(p, target) \<in> set ?ss" by simp
  from first_failure_None [OF r(2) in_ss] obtain parsed
    where parsed: "parsed_include env this target = Inr parsed"
    by (auto simp: resolves_def split: sum.splits)
  have d: "distinct (map fst ?ss)"
    using walk_distinct [of env fpath "[]" tree] by (simp add: queue_sorted_props walk_walk_from)
  have inc: "\<forall>a\<in>set ?ss. \<forall>b\<in>set ?ss. prefix (fst a) (fst b) \<longrightarrow> fst a = fst b"
    using walk_incomparable [of _ env fpath "[]" tree] by (simp add: walk_walk_from)
  have at: "node_at p tree' = Some (object_assign n parsed)"
    unfolding r(3) using d inc in_ss n(1) parsed by (rule assign_all_site)
  have frame: "node_at q tree' = node_at q tree"
    if "\<forall>s\<in>set ?queue. \<not> prefix (fst s) q \<and> \<not> prefix q (fst s)" for q
    unfolding r(3) by (rule assign_all_frame) (use that in simp)
  have inc_n: "include_directive n" and nm: "name n = Some ''include''"
    using n(2) by (simp_all add: resolvable_def include_directive_def)
  have fields: "ntype (object_assign n parsed) = ntype parsed"
    "name (object_assign n parsed)
             = (case name parsed of None \<Rightarrow> Some ''include'' | Some x \<Rightarrow> Some x)"
    "attributes (object_assign n parsed)
             = (case attributes parsed of None \<Rightarrow> attributes n | Some x \<Rightarrow> Some x)"
    "nvalue (object_assign n parsed)
             = (case nvalue parsed of None \<Rightarrow> nvalue n | Some x \<Rightarrow> Some x)"
    "children (object_assign n parsed)
             = (case children parsed of None \<Rightarrow> children n | Some x \<Rightarrow> Some x)"
    "position (object_assign n parsed)
             = (case position parsed of None \<Rightarrow> position n | Some x \<Rightarrow> Some x)"
    by (simp_all add: object_assign_def nm split: option.splits)
  from n(1) inc_n parsed at fields frame show ?thesis by blast
qed

text \<open>The theorem at work on the tree with one include of \<^verbatim>\<open>b.mdx\<close>.\<close>

theorem remarkInclude_overwrites_witness:
  "node_at [0] (assign_all ex_env ex_this [([0], ''/docs/b.mdx'')] ex_tree_one)
     = Some (Node ''root'' (Some ''include'') (Some []) None
               (Some [Node ''paragraph'' None None None (Some [text_node ''Hello'']) None])
               (Some (0, 0)))"
proof -
  have w: "walk ex_env (Some ''/docs/a.mdx'') ex_tree_one = (None, [([0], ''/docs/b.mdx'')])"
    by (simp add: ex_defs ex_tree_one_def build_defs)
  have p: "parsed_include ex_env ex_this ''/docs/b.mdx''
      = Inr (root_node [Node ''paragraph'' None None None (Some [text_node ''Hello'']) None])"
    by (simp add: parsed_include_def parse_def ex_defs ex_tree_one_def)
  have r: "remarkInclude ex_env ex_this False (Some ''/docs/a.mdx'') ex_tree_one init_world
      = (Inr (assign_all ex_env ex_this [([0], ''/docs/b.mdx'')] ex_tree_one),
         init_world\<lparr>reads := [''/docs/b.mdx'']\<rparr>)"
    by (simp add: remarkInclude_eq w p) (simp add: ex_defs ex_tree_one_def)
  have 2: "([0], ''/docs/b.mdx'') \<in> set (snd (walk ex_env (Some ''/docs/a.mdx'') ex_tree_one))"
    by (simp add: w)
  have n: "node_at [0] ex_tree_one = Some (jsx_flow ''include'' [text_node ''b.mdx''])"
    by (simp add: ex_defs ex_tree_one_def)
  from remarkInclude_overwrites [OF r 2] show ?thesis
    unfolding n p by (simp add: object_assign_def root_node_def jsx_flow_def)
qed

text \<open>
  Claim C6. With a recorder, the transform appends to the recorder's log the target
  path of every queued include that resolves, once per queued include and in the
  order in which the reads settle, so that each path is reported as many times as it
  is included; without a recorder nothing is reported, and the transform's result is
  the same.
\<close>

theorem remarkInclude_reports_dependencies:
  "deps (snd (remarkInclude env this True fpath tree w)) =
     deps w @ map snd (filter (resolves env this) (sort_key (latency env) (snd (walk env fpath tree)))) \<and>
   mset (map snd (filter (resolves env this) (sort_key (latency env) (snd (walk env fpath tree))))) =
     mset (map snd (filter (resolves env this) (snd (walk env fpath tree)))) \<and>
   deps (snd (remarkInclude env this False fpath tree w)) = deps w \<and>
   fst (remarkInclude env this False fpath tree w) = fst (remarkInclude env this True fpath tree w)"
proof -
  have "mset (filter (resolves env this) (sort_key (latency env) (snd (walk env fpath tree)))) =
        mset (filter (resolves env this) (snd (walk env fpath tree)))"
    by simp
  then have "mset (map snd (filter (resolves env this) (sort_key (latency env) (snd (walk env fpath tree))))) =
     mset (map snd (filter (resolves env this) (snd (walk env fpath tree))))"
    by (metis mset_map)
  then show ?thesis
    by (simp add: remarkInclude_eq Let_def split: option.splits)
qed

text \<open>The same file included twice is reported twice.\<close>

theorem remarkInclude_reports_dependencies_witness:
  "deps (snd (remarkInclude ex_env ex_this True (Some ''/docs/a.mdx'') ex_tree_twice init_world))
     = [''/docs/b.mdx'', ''/docs/b.mdx''] \<and>
   deps (snd (remarkInclude ex_env ex_this False (Some ''/docs/a.mdx'') ex_tree_twice init_world)) = []"
proof -
  have "walk ex_env (Some ''/docs/a.mdx'') ex_tree_twice
          = (None, [([0], ''/docs/b.mdx''), ([2], ''/docs/b.mdx'')])"
    by (simp add: ex_defs ex_tree_twice_def build_defs)
  moreover have "resolves ex_env ex_this ([0], ''/docs/b.mdx'')" "resolves ex_env ex_this ([2], ''/docs/b.mdx'')"
    by (simp_all add: resolves_def parsed_include_def parse_def ex_defs ex_tree_twice_def)
  moreover have "latency ex_env = (\<lambda>_. 0)" "deps init_world = []"
    by (simp_all add: ex_defs ex_tree_twice_def)
  ultimately show ?thesis
    using remarkInclude_reports_dependencies [of ex_env ex_this "Some ''/docs/a.mdx''" ex_tree_twice init_world]
    by simp
qed

text \<open>
  Claim C7. When the processor was obtained, the document parsed and walked, and some
  queued include does not resolve: the promise \<^verbatim>\<open>buildMDX\<close> returns rejects with the
  first failure in settling order, which is the failure of one of the queued includes;
  the cache still holds the call's entry under its key, and a later call with the
  same hash and format runs on that entry without touching the world.
\<close>

theorem buildMDX_include_failure:
  assumes "fst (cached_processor env grp h options w) = Inr c"
    and "filePath options \<noteq> Some []"
    and "parse env (processor c) source = Inr tree0"
    and "builtin_transforms env (processor c) tree0 = Inr tree"
    and "walk env (filePath options) tree = (None, queue)"
    and "s \<in> set queue" and "\<not> resolves env (processor c) s"
    and "resolve_format options' = resolve_format options"
  shows "\<exists>e. first_failure env (processor c) (sort_key (latency env) queue) = Some e \<and>
           (\<exists>s'\<in>set queue. parsed_include env (processor c) (snd s') = Inl e) \<and>
           fst (buildMDX env grp h source options w) = Rejects e \<and>
           cache (snd (buildMDX env grp h source options w))
             (cacheKey grp (format_str (resolve_format options))) = Some c \<and>
           configHash c = h \<and>
           cached_processor env grp h options' (snd (buildMDX env grp h source options w))
             = (Inr c, snd (buildMDX env grp h source options w))"
proof -
  let ?ss = "sort_key (latency env) queue"
  let ?w1 = "snd (cached_processor env grp h options w)"
  have "s \<in> set ?ss" using assms(6) by simp
  from first_failure_Some [OF this assms(7)] obtain e
    where e: "first_failure env (processor c) ?ss = Some e" by blast
  from first_failure_member [OF e] have mem:
    "\<exists>s'\<in>set queue. parsed_include env (processor c) (snd s') = Inl e" by simp
  have "fst (remarkInclude env (processor c) (has_compiler options) (filePath options) tree ?w1)
          = Inl e"
    by (simp add: remarkInclude_eq assms(5) e Let_def)
  then obtain w' where
    "remarkInclude env (processor c) (has_compiler options) (filePath options) tree ?w1 = (Inl e, w')"
    by (cases "remarkInclude env (processor c) (has_compiler options) (filePath options) tree ?w1")
      simp
  then have rej: "fst (buildMDX env grp h source options w) = Rejects e"
    unfolding buildMDX_eq [OF assms(1)]
    by (simp add: process_def vfile_of_def assms(2,3,4) parse_attached [OF assms(3)])
  have entry: "cache (snd (buildMDX env grp h source options w))
             (cacheKey grp (format_str (resolve_format options))) = Some c" and hc: "configHash c = h"
    using cached_processor_entry [OF assms(1)] by (simp_all add: buildMDX_cache)
  then have "cached_processor env grp h options' (snd (buildMDX env grp h source options w))
             = (Inr c, snd (buildMDX env grp h source options w))"
    by (intro cached_processor_hit) (simp_all add: assms(8))
  with e mem rej entry hc show ?thesis by blast
qed

text \<open>An include of a file that does not exist.\<close>

theorem buildMDX_include_failure_witness:
  "fst (buildMDX ex_env ''docs'' ''A'' ''<include>missing.mdx</include>''
          (no_options\<lparr>filePath := Some ''/docs/a.mdx''\<rparr>) init_world) = Rejects (Failure ''ENOENT'') \<and>
   cached_processor ex_env ''docs'' ''A'' (no_options\<lparr>filePath := Some ''/docs/a.mdx''\<rparr>)
     (snd (buildMDX ex_env ''docs'' ''A'' ''<include>missing.mdx</include>''
          (no_options\<lparr>filePath := Some ''/docs/a.mdx''\<rparr>) init_world))
   = (fst (cached_processor ex_env ''docs'' ''A'' (no_options\<lparr>filePath := Some ''/docs/a.mdx''\<rparr>)
             init_world),
      snd (buildMDX ex_env ''docs'' ''A'' ''<include>missing.mdx</include>''
          (no_options\<lparr>filePath := Some ''/docs/a.mdx''\<rparr>) init_world))"
proof -
  let ?o = "no_options\<lparr>filePath := Some ''/docs/a.mdx''\<rparr>"
  let ?c = "\<lparr>processor = \<lparr>pid = 0, popts = processor_options_of ex_env ?o Mdx\<rparr>,
             configHash = ''A''\<rparr>"
  let ?t = "root_node [jsx_flow ''include'' [text_node ''missing.mdx'']]"
  have 1: "fst (cached_processor ex_env ''docs'' ''A'' ?o init_world) = Inr ?c"
    by (simp add: ex_defs build_defs)
  have 2: "filePath ?o \<noteq> Some []" by (simp add: ex_defs)
  have 3: "parse ex_env (processor ?c) ''<include>missing.mdx</include>'' = Inr ?t"
    by (simp add: parse_def ex_defs)
  have 4: "builtin_transforms ex_env (processor ?c) ?t = Inr ?t"
    by (simp add: ex_defs)
  have 5: "walk ex_env (filePath ?o) ?t = (None, [([0], ''/docs/missing.mdx'')])"
    by (simp add: ex_defs build_defs)
  have 6: "([0], ''/docs/missing.mdx'') \<in> set [([0], ''/docs/missing.mdx'')]" by simp
  have 7: "\<not> resolves ex_env (processor ?c) ([0], ''/docs/missing.mdx'')"
    by (simp add: resolves_def parsed_include_def parse_def ex_defs)
  have 8: "first_failure ex_env (processor ?c) [([0], ''/docs/missing.mdx'')] = Some (Failure ''ENOENT'')"
    by (simp add: parsed_include_def parse_def ex_defs)
  from buildMDX_include_failure [OF 1 2 3 4 5 6 7 refl] obtain e where
    e: "first_failure ex_env (processor ?c) (sort_key (latency ex_env) [([0], ''/docs/missing.mdx'')])
          = Some e"
    and r: "fst (buildMDX ex_env ''docs'' ''A'' ''<include>missing.mdx</include>'' ?o init_world)
          = Rejects e"
    and c: "cached_processor ex_env ''docs'' ''A'' ?o
              (snd (buildMDX ex_env ''docs'' ''A'' ''<include>missing.mdx</include>'' ?o init_world))
            = (Inr ?c, snd (buildMDX ex_env ''docs'' ''A'' ''<include>missing.mdx</include>'' ?o
                 init_world))"
    by blast
  from e 8 have "e = Failure ''ENOENT''" by simp
  with r c show ?thesis
    unfolding 1 by simp
qed

text \<open>
  Claim C8, as stated: an include directive whose first child is missing or not text
  is left structurally unchanged. The visitor returns \<^verbatim>\<open>undefined\<close> for it, so the
  walk goes on into its children: the directive at path 1 below has an include
  directive as its only child, and after the transform that child is a \<^verbatim>\<open>root\<close>
  holding the included paragraph.
\<close>

theorem passed_over_changed_counterexample:
  "node_at [1] ex_tree_nested = Some (jsx_flow ''include'' [jsx_flow ''include'' [text_node ''b.mdx'']]) \<and>
   passed_over (jsx_flow ''include'' [jsx_flow ''include'' [text_node ''b.mdx'']]) \<and>
   fst (remarkInclude ex_env ex_this False (Some ''/docs/a.mdx'') ex_tree_nested init_world)
     = Inr (root_node
         [jsx_flow ''div'' [jsx_flow ''include'' [text_node ''b.mdx'']],
          jsx_flow ''include''
            [Node ''root'' (Some ''include'') (Some []) None
               (Some [Node ''paragraph'' None None None (Some [text_node ''Hello'']) None])
               (Some (0, 0))]])"
  by (simp add: ex_defs ex_tree_nested_def build_defs passed_over_def include_directive_def)

text \<open>
  Claim C8, amended. For an include directive whose first child is missing or not
  text: the visitor passes over it (it queues nothing, issues no read and raises
  nothing); it is never queued, hence never overwritten itself; and after a transform
  that fulfils, unless it lay inside a queued directive, it is at its place with its
  type, name, attributes, value, position and number of children, and it is unchanged
  altogether when no queued directive lies below it.
\<close>

theorem passed_over_include:
  assumes "node_at p tree = Some n" and "passed_over n"
  shows "include_visitor env fpath n p q = (Inr CONTINUE, q) \<and>
         p \<notin> fst ` set (snd (walk env fpath tree)) \<and>
         (\<forall>tree' w'.
            remarkInclude env this c fpath tree w = (Inr tree', w') \<and>
            (\<forall>s\<in>set (snd (walk env fpath tree)). \<not> prefix (fst s) p) \<longrightarrow>
              (\<exists>n'. node_at p tree' = Some n' \<and> same_shell n n' \<and>
                 ((\<forall>s\<in>set (snd (walk env fpath tree)). \<not> prefix p (fst s)) \<longrightarrow> n' = n)))"
proof (intro conjI allI impI)
  show "include_visitor env fpath n p q = (Inr CONTINUE, q)"
    using assms(2)
    by (auto simp: include_visitor_def passed_over_def include_directive_def
          split: option.splits list.splits)
  show "p \<notin> fst ` set (snd (walk env fpath tree))"
  proof
    assume "p \<in> fst ` set (snd (walk env fpath tree))"
    then obtain s where "s \<in> set (snd (walk_from env fpath [] tree))" "fst s = p"
      by (auto simp: walk_walk_from)
    from walk_sound [OF this(1)] this(2) assms(1) have "resolvable n" by auto
    with assms(2) show False by (simp add: resolvable_not_passed_over)
  qed
  fix tree' w'
  assume a: "remarkInclude env this c fpath tree w = (Inr tree', w') \<and>
            (\<forall>s\<in>set (snd (walk env fpath tree)). \<not> prefix (fst s) p)"
  let ?ss = "sort_key (latency env) (snd (walk env fpath tree))"
  from a have "remarkInclude env this c fpath tree w = (Inr tree', w')" by simp
  then have t': "tree' = assign_all env this ?ss tree"
    by (rule remarkInclude_Inr(3))
  from a have np: "\<forall>s\<in>set ?ss. \<not> prefix (fst s) p" by simp
  from assign_all_shell [OF np assms(1)] obtain n' where
    n': "node_at p (assign_all env this ?ss tree) = Some n'" "same_shell n n'" by blast
  have "n' = n" if "\<forall>s\<in>set (snd (walk env fpath tree)). \<not> prefix p (fst s)"
  proof -
    from that np have "\<forall>s\<in>set ?ss. \<not> prefix (fst s) p \<and> \<not> prefix p (fst s)" by simp
    from assign_all_frame [OF this] n'(1) assms(1) show ?thesis by simp
  qed
  with n' show "\<exists>n'. node_at p tree' = Some n' \<and> same_shell n n' \<and>
                 ((\<forall>s\<in>set (snd (walk env fpath tree)). \<not> prefix p (fst s)) \<longrightarrow> n' = n)"
    unfolding t' by blast
qed

text \<open>The directive at path 1 of the counterexample keeps its shell.\<close>

theorem passed_over_include_witness:
  "(\<exists>n'. node_at [1] (assign_all ex_env ex_this [([1, 0], ''/docs/b.mdx'')] ex_tree_nested) = Some n' \<and>
         same_shell (jsx_flow ''include'' [jsx_flow ''include'' [text_node ''b.mdx'']]) n') \<and>
   [1] \<notin> fst ` set (snd (walk ex_env (Some ''/docs/a.mdx'') ex_tree_nested))"
proof -
  let ?n = "jsx_flow ''include'' [jsx_flow ''include'' [text_node ''b.mdx'']]"
  have w: "walk ex_env (Some ''/docs/a.mdx'') ex_tree_nested = (None, [([1, 0], ''/docs/b.mdx'')])"
    by (simp add: ex_defs ex_tree_nested_def build_defs)
  have p: "parsed_include ex_env ex_this ''/docs/b.mdx''
      = Inr (root_node [Node ''paragraph'' None None None (Some [text_node ''Hello'']) None])"
    by (simp add: parsed_include_def parse_def ex_defs ex_tree_nested_def)
  have r: "remarkInclude ex_env ex_this False (Some ''/docs/a.mdx'') ex_tree_nested init_world
      = (Inr (assign_all ex_env ex_this [([1, 0], ''/docs/b.mdx'')] ex_tree_nested),
         init_world\<lparr>reads := [''/docs/b.mdx'']\<rparr>)"
    by (simp add: remarkInclude_eq w p) (simp add: ex_defs ex_tree_nested_def)
  have 1: "node_at [1] ex_tree_nested = Some ?n" by (simp add: ex_defs ex_tree_nested_def)
  have 2: "passed_over ?n" by (simp add: passed_over_def include_directive_def ex_defs ex_tree_nested_def)
  have 3: "\<forall>s\<in>set (snd (walk ex_env (Some ''/docs/a.mdx'') ex_tree_nested)). \<not> prefix (fst s) [1]"
    by (simp add: w)
  from passed_over_include [OF 1 2, of ex_env "Some ''/docs/a.mdx''" _ ex_this False init_world] r 3
  show ?thesis by blast
qed

text \<open>
  Claim C10, as stated: without a file path, a tree that contains an include directive
  with a text first child makes the promise reject. The walk does not go below the
  \<^verbatim>\<open>div\<close>, so the directive inside it is never visited and the build fulfils.
\<close>

theorem include_in_element_counterexample:
  "filePath no_options = None \<and>
   ex_parse ''<div><include>b.mdx</include></div>''
     = Inr (root_node [jsx_flow ''div'' [jsx_flow ''include'' [text_node ''b.mdx'']]]) \<and>
   resolvable (jsx_flow ''include'' [text_node ''b.mdx'']) \<and>
   fst (buildMDX ex_env ''docs'' ''A'' ''<div><include>b.mdx</include></div>'' no_options init_world)
     = Fulfils ''program''"
  by (simp add: ex_defs build_defs resolvable_def include_directive_def)

text \<open>
  Claim C10, amended. Without a file path, when the processor was obtained and the
  document parsed to a tree in which the walk reaches an include directive with a text
  first child (no opaque node strictly above it), the promise rejects with a
  \<^verbatim>\<open>TypeError\<close>, and no read was issued and nothing reported.
\<close>

theorem buildMDX_without_path:
  assumes "filePath options = None"
    and "fst (cached_processor env grp h options w) = Inr c"
    and "parse env (processor c) source = Inr tree0"
    and "builtin_transforms env (processor c) tree0 = Inr tree"
    and "node_at r tree = Some m" and "resolvable m"
    and "\<forall>r' m'. strict_prefix r' r \<longrightarrow> node_at r' tree = Some m' \<longrightarrow> \<not> opaque m'"
  shows "\<exists>msg. fst (buildMDX env grp h source options w) = Rejects (TypeError msg) \<and>
           reads (snd (buildMDX env grp h source options w)) = reads w \<and>
           deps (snd (buildMDX env grp h source options w)) = deps w"
proof -
  let ?w1 = "snd (cached_processor env grp h options w)"
  have q: "snd (walk env None tree) = []"
    by (simp add: walk_walk_from walk_no_path)
  have "fst (walk env None tree) \<noteq> None"
  proof
    assume "fst (walk env None tree) = None"
    then have "fst (walk_from env None [] tree) = None" by (simp add: walk_walk_from)
    moreover have "reaches tree r"
      using assms(5,7) by (simp add: reaches_iff)
    ultimately show False
      using walk_complete [OF _ _ assms(5,6), of env None "[]"] by (simp add: walk_no_path)
  qed
  then obtain e where e: "fst (walk env None tree) = Some e" by blast
  then have "fst (walk_from env None [] tree) = Some e" by (simp add: walk_walk_from)
  from walk_error [OF this] obtain msg where msg: "e = TypeError msg" by blast
  have "remarkInclude env (processor c) (has_compiler options) None tree ?w1
          = (Inl (TypeError msg), ?w1\<lparr>reads := reads ?w1, deps := deps ?w1\<rparr>)"
    by (simp add: remarkInclude_eq q e msg Let_def)
  then have "process env (processor c) (vfile_of source options) ?w1
          = (Rejects (TypeError msg), ?w1\<lparr>reads := reads ?w1, deps := deps ?w1\<rparr>)"
    by (simp add: process_def vfile_of_def assms(1,3,4) parse_attached [OF assms(3)])
  then have "buildMDX env grp h source options w
          = (Rejects (TypeError msg), ?w1\<lparr>reads := reads ?w1, deps := deps ?w1\<rparr>)"
    by (simp add: buildMDX_eq [OF assms(2)])
  then show ?thesis
    by (simp add: cached_processor_reads)
qed

text \<open>One include at top level, no file path.\<close>

theorem buildMDX_without_path_witness:
  "\<exists>msg. fst (buildMDX ex_env ''docs'' ''A'' ''<include>b.mdx</include>'' no_options init_world)
       = Rejects (TypeError msg) \<and>
     reads (snd (buildMDX ex_env ''docs'' ''A'' ''<include>b.mdx</include>'' no_options init_world))
       = []"
proof -
  let ?c = "\<lparr>processor = \<lparr>pid = 0, popts = processor_options_of ex_env no_options Mdx\<rparr>,
             configHash = ''A''\<rparr>"
  have 1: "filePath no_options = None" by (simp add: ex_defs ex_tree_one_def)
  have 2: "fst (cached_processor ex_env ''docs'' ''A'' no_options init_world) = Inr ?c"
    by (simp add: ex_defs ex_tree_one_def build_defs)
  have 3: "parse ex_env (processor ?c) ''<include>b.mdx</include>'' = Inr ex_tree_one"
    by (simp add: parse_def ex_defs ex_tree_one_def)
  have 4: "builtin_transforms ex_env (processor ?c) ex_tree_one = Inr ex_tree_one"
    by (simp add: ex_defs ex_tree_one_def)
  have 5: "node_at [0] ex_tree_one = Some (jsx_flow ''include'' [text_node ''b.mdx''])"
    by (simp add: ex_defs ex_tree_one_def)
  have 6: "resolvable (jsx_flow ''include'' [text_node ''b.mdx''])"
    by (simp add: resolvable_def include_directive_def ex_defs ex_tree_one_def)
  have "reaches ex_tree_one [0]"
    by (simp add: ex_defs ex_tree_one_def opaque_def)
  then have 7: "\<forall>r' m'. strict_prefix r' [0] \<longrightarrow> node_at r' ex_tree_one = Some m' \<longrightarrow> \<not> opaque m'"
    by (simp add: reaches_iff)
  from buildMDX_without_path [OF 1 2 3 4 5 6 7] show ?thesis
    by (simp add: init_world_def)
qed

end
